theory Spec2Isabelle
  imports Main "HOL-Library.AList" "HOL-Library.Multiset" "HOL-Library.Log_Nat"
begin

section \<open>Values of the program\<close>

text \<open>
  Node identifiers are the keys of JavaScript \<open>Map\<close>s; the sample usage of the source takes
  strings, and so does the model.  A key is tested for truthiness by \<open>while (node)\<close> in
  \<open>findShortestPath\<close>: the one falsy string is the empty one.
\<close>

type_synonym key = string

definition truthy :: "key \<Rightarrow> bool" where
  "truthy k = (k \<noteq> [])"

text \<open>
  Numbers (edge weights, distances, heap priorities) are IEEE doubles: \<open>-Infinity\<close>, the
  finite values (rationals, of which the doubles are those that \<open>is_double\<close> accepts) and
  \<open>Infinity\<close>, ordered as \<open><\<close> and \<open><=\<close> order them.  \<open>NaN\<close> is not a value of the model:
  it can arise in the program only as the result of an addition, which the model gives as
  a missing result; a weight that is \<open>NaN\<close> is outside the model, and the two zeros are one
  value.
\<close>

datatype num = NegInf | Fin rat | Inf

instantiation num :: "{zero, linorder}"
begin

definition zero_num :: num where
  "zero_num = Fin 0"

fun less_eq_num :: "num \<Rightarrow> num \<Rightarrow> bool" where
  "less_eq_num NegInf b = True"
| "less_eq_num (Fin a) NegInf = False"
| "less_eq_num (Fin a) (Fin b) = (a \<le> b)"
| "less_eq_num (Fin a) Inf = True"
| "less_eq_num Inf NegInf = False"
| "less_eq_num Inf (Fin b) = False"
| "less_eq_num Inf Inf = True"

fun less_num :: "num \<Rightarrow> num \<Rightarrow> bool" where
  "less_num NegInf NegInf = False"
| "less_num NegInf (Fin b) = True"
| "less_num NegInf Inf = True"
| "less_num (Fin a) NegInf = False"
| "less_num (Fin a) (Fin b) = (a < b)"
| "less_num (Fin a) Inf = True"
| "less_num Inf b = False"

instance
proof
  fix x y z :: num
  show "(x < y) = (x \<le> y \<and> \<not> y \<le> x)"
    by (cases x; cases y) auto
  show "x \<le> x"
    by (cases x) auto
  show "x \<le> y \<Longrightarrow> y \<le> z \<Longrightarrow> x \<le> z"
    by (cases x; cases y; cases z) auto
  show "x \<le> y \<Longrightarrow> y \<le> x \<Longrightarrow> x = y"
    by (cases x; cases y) auto
  show "x \<le> y \<or> y \<le> x"
    by (cases x; cases y) auto
qed

end

text \<open>
  The sum of two finite doubles is the exact sum rounded to the nearest double, a tie going
  to the even significand.  Around \<open>x\<close> the doubles are the multiples of \<open>2 ^ e\<close>, where
  \<open>e\<close> is 52 below the binary exponent of \<open>x\<close> and at least \<open>-1074\<close> (the subnormal
  range); a rounded value of \<open>2 ^ 1024\<close> or more is \<open>Infinity\<close>.
\<close>

definition pow2 :: "int \<Rightarrow> rat" where
  "pow2 k = 2 powi k"

definition ilog2 :: "rat \<Rightarrow> int" where
  "ilog2 x =
     (let (p, q) = quotient_of x; d = bitlen p - bitlen q
      in if pow2 d \<le> x then d else d - 1)"

definition ulp_exp :: "rat \<Rightarrow> int" where
  "ulp_exp x = (if x = 0 then - 1074 else max (- 1074) (ilog2 \<bar>x\<bar> - 52))"

definition round_half_even :: "rat \<Rightarrow> int" where
  "round_half_even y =
     (let f = \<lfloor>y\<rfloor>; r = y - of_int f
      in if r < 1 / 2 then f else if 1 / 2 < r then f + 1 else if even f then f else f + 1)"

definition nearest64 :: "rat \<Rightarrow> rat" where
  "nearest64 x = of_int (round_half_even (x / pow2 (ulp_exp x))) * pow2 (ulp_exp x)"

definition huge :: rat where
  "huge = 2 ^ 1024"

lemma huge_code [code]:
  "huge = 179769313486231590772930519078902473361797697894230657273430081157732675805500963132708477322407536021120113879871393357658789768814416622492847430639474124377767893424865485276302219601246094119453082952085005768838150682342462881473913110540827237163350510684586298239947245938479716304835356329624224137216"
  by (simp add: huge_def)

definition round64 :: "rat \<Rightarrow> num" where
  "round64 x =
     (let r = nearest64 x
      in if huge \<le> r then Inf else if r \<le> - huge then NegInf else Fin r)"

text \<open>
  The operator \<open>+\<close> on numbers.  \<open>Infinity + -Infinity\<close> is \<open>NaN\<close>, which is no value of
  the model: the result is \<open>None\<close>.
\<close>

fun js_add :: "num \<Rightarrow> num \<Rightarrow> num option" where
  "js_add (Fin a) (Fin b) = Some (round64 (a + b))"
| "js_add Inf NegInf = None"
| "js_add NegInf Inf = None"
| "js_add Inf b = Some Inf"
| "js_add a Inf = Some Inf"
| "js_add NegInf b = Some NegInf"
| "js_add a NegInf = Some NegInf"

text \<open>The finite values that are doubles: the ones that rounding leaves as they are.\<close>

fun is_double :: "num \<Rightarrow> bool" where
  "is_double (Fin x) = (round64 x = Fin x)"
| "is_double a = True"

datatype error =
  InvalidNodes      \<comment> \<open>\<open>Error("Invalid node(s).")\<close>\<close>
| InvalidStartEnd   \<comment> \<open>\<open>Error("Invalid start and/or end node.")\<close>\<close>
| NoPathFound       \<comment> \<open>\<open>Error("No path found.")\<close>\<close>
| InvalidNode       \<comment> \<open>\<open>Error("Invalid node.")\<close>\<close>
| TypeError         \<comment> \<open>a property read on \<open>undefined\<close>\<close>

section \<open>JavaScript maps\<close>

text \<open>
  A \<open>Map\<close> iterates in insertion order, \<open>set\<close> on a present key keeps the key's position and
  \<open>delete\<close> removes the entry: an association list, with the update and delete of the library's
  association lists.
\<close>

definition Map_has :: "('k \<times> 'v) list \<Rightarrow> 'k \<Rightarrow> bool" where
  "Map_has m k = (map_of m k \<noteq> None)"

definition Map_get :: "('k \<times> 'v) list \<Rightarrow> 'k \<Rightarrow> 'v option" where
  "Map_get m k = map_of m k"

definition Map_set :: "('k \<times> 'v) list \<Rightarrow> 'k \<Rightarrow> 'v \<Rightarrow> ('k \<times> 'v) list" where
  "Map_set m k v = AList.update k v m"

definition Map_delete :: "('k \<times> 'v) list \<Rightarrow> 'k \<Rightarrow> ('k \<times> 'v) list" where
  "Map_delete m k = AList.delete k m"

definition Map_keys :: "('k \<times> 'v) list \<Rightarrow> 'k list" where
  "Map_keys m = map fst m"

section \<open>The graph\<close>

text \<open>The object \<open>{ from, to, weight }\<close> that \<open>addEdge\<close> allocates.\<close>

record edge =
  efrom :: key
  eto :: key
  weight :: num

text \<open>
  The object \<open>{ value, edges: new Map() }\<close> of a node.  The keys of its \<open>edges\<close> map are edge
  objects, compared by identity; \<open>addEdge\<close> is the only writer and each call stores an object
  it has just allocated, so the map is the list of these objects in the order of the calls.
\<close>

record 'v node_entry =
  node_value :: 'v
  node_edges :: "edge list"

record 'v graph =
  nodes :: "(key \<times> 'v node_entry) list"
  edges :: "(key \<times> (key \<times> edge) list) list"

definition new_Graph :: "'v graph" where
  "new_Graph = \<lparr>nodes = [], edges = []\<rparr>"

definition addNode :: "'v graph \<Rightarrow> key \<Rightarrow> 'v \<Rightarrow> 'v graph" where
  "addNode g nodeId v =
     (if \<not> Map_has (nodes g) nodeId
      then g\<lparr>nodes := Map_set (nodes g) nodeId \<lparr>node_value = v, node_edges = []\<rparr>\<rparr>
      else g)"

text \<open>
  The loop of \<open>removeNode\<close> over \<open>node.edges.keys()\<close>:
  \<open>this.edges.get(edge.from).delete(edge.to)\<close>.
\<close>

fun removeNode_edges :: "edge list \<Rightarrow> 'v graph \<Rightarrow> error + 'v graph" where
  "removeNode_edges [] g = Inr g"
| "removeNode_edges (e # es) g =
     (case Map_get (edges g) (efrom e) of
        None \<Rightarrow> Inl TypeError
      | Some m \<Rightarrow>
          removeNode_edges es (g\<lparr>edges := Map_set (edges g) (efrom e) (Map_delete m (eto e))\<rparr>))"

definition removeNode :: "'v graph \<Rightarrow> key \<Rightarrow> error + 'v graph" where
  "removeNode g nodeId =
     (if Map_has (nodes g) nodeId
      then (case Map_get (nodes g) nodeId of
              None \<Rightarrow> Inr g
            | Some node \<Rightarrow>
                removeNode_edges (node_edges node) (g\<lparr>nodes := Map_delete (nodes g) nodeId\<rparr>))
      else Inr g)"

definition addEdge :: "'v graph \<Rightarrow> key \<Rightarrow> key \<Rightarrow> num \<Rightarrow> error + 'v graph" where
  "addEdge g from to w =
     (if \<not> Map_has (nodes g) from \<or> \<not> Map_has (nodes g) to then Inl InvalidNodes
      else
        let e = \<lparr>efrom = from, eto = to, weight = w\<rparr>;
            edges' = (case Map_get (edges g) from of
                        None \<Rightarrow> Map_set (edges g) from [(to, e)]
                      | Some m \<Rightarrow> Map_set (edges g) from (Map_set m to e));
            nodes' = (case Map_get (nodes g) from of
                        None \<Rightarrow> nodes g
                      | Some n \<Rightarrow>
                          Map_set (nodes g) from (n\<lparr>node_edges := node_edges n @ [e]\<rparr>))
        in Inr (g\<lparr>nodes := nodes', edges := edges'\<rparr>))"

section \<open>The binary heap\<close>

text \<open>The heap array holds objects \<open>{ distance, node }\<close>.\<close>

record elem =
  distance :: num
  node :: key

type_synonym heap = "elem list"

text \<open>The constructor: \<open>this.heap = []\<close>.\<close>

definition new_BinaryHeap :: heap where
  "new_BinaryHeap = []"

definition swap :: "heap \<Rightarrow> nat \<Rightarrow> nat \<Rightarrow> heap" where
  "swap h index1 index2 = h[index1 := h ! index2, index2 := h ! index1]"

lemma length_swap [simp]: "length (swap h i j) = length h"
  by (simp add: swap_def)

function bubbleUp :: "heap \<Rightarrow> nat \<Rightarrow> heap" where
  "bubbleUp h index =
     (if index > 0
      then (let parentIndex = (index - 1) div 2
            in if distance (h ! parentIndex) \<le> distance (h ! index) then h
               else bubbleUp (swap h index parentIndex) parentIndex)
      else h)"
  by pat_completeness auto
termination
  by (relation "measure (\<lambda>(h, index). index)") auto

declare bubbleUp.simps [simp del]

function bubbleDown :: "heap \<Rightarrow> nat \<Rightarrow> heap" where
  "bubbleDown h index =
     (if index < length h
      then (let leftIndex = index * 2 + 1;
                rightIndex = index * 2 + 2;
                smallestIndex =
                  (if leftIndex < length h \<and> distance (h ! leftIndex) < distance (h ! index)
                   then leftIndex else index);
                smallestIndex =
                  (if rightIndex < length h
                      \<and> distance (h ! rightIndex) < distance (h ! smallestIndex)
                   then rightIndex else smallestIndex)
            in if smallestIndex = index then h
               else bubbleDown (swap h index smallestIndex) smallestIndex)
      else h)"
  by pat_completeness auto
termination
  by (relation "measure (\<lambda>(h, index). length h - index)") (auto split: if_splits)

declare bubbleDown.simps [simp del]

definition insert_heap :: "heap \<Rightarrow> num \<Rightarrow> key \<Rightarrow> heap" where
  "insert_heap h d n = bubbleUp (h @ [\<lparr>distance = d, node = n\<rparr>]) (length h)"

text \<open>
  \<open>extractMin\<close> on the empty array reads \<open>min.node\<close> of \<open>undefined\<close>: a \<open>TypeError\<close>.
\<close>

definition extractMin :: "heap \<Rightarrow> error + key \<times> heap" where
  "extractMin h =
     (case h of
        [] \<Rightarrow> Inl TypeError
      | m # _ \<Rightarrow>
          (let l = last h; h1 = butlast h
           in if length h1 > 0 then Inr (node m, bubbleDown (h1[0 := l]) 0)
              else Inr (node m, h1)))"

text \<open>\<open>findIndex\<close>: the first position whose element satisfies the predicate, or \<open>-1\<close>.\<close>

fun findIndex :: "('a \<Rightarrow> bool) \<Rightarrow> 'a list \<Rightarrow> nat option" where
  "findIndex P [] = None"
| "findIndex P (x # xs) =
     (if P x then Some 0 else map_option Suc (findIndex P xs))"

definition updateDistance :: "heap \<Rightarrow> key \<Rightarrow> num \<Rightarrow> heap" where
  "updateDistance h n d =
     (case findIndex (\<lambda>e. node e = n) h of
        None \<Rightarrow> h
      | Some index \<Rightarrow>
          if d < distance (h ! index)
          then bubbleUp (h[index := (h ! index)\<lparr>distance := d\<rparr>]) index
          else h)"

definition isEmpty :: "heap \<Rightarrow> bool" where
  "isEmpty h = (length h = 0)"

section \<open>Shortest paths\<close>

text \<open>
  The local state of \<open>findShortestPath\<close>: the maps \<open>distances\<close> and \<open>previous\<close> (only read
  and written by key, never iterated) and the heap.  \<open>previous\<close> holds \<open>null\<close> (\<open>None\<close>) or a
  key.
\<close>

record dijkstra_state =
  distances :: "key \<rightharpoonup> num"
  previous :: "key \<rightharpoonup> key option"
  heap :: heap

text \<open>One round of the initialisation loop over \<open>this.nodes.keys()\<close>.\<close>

definition init_node :: "key \<Rightarrow> key \<Rightarrow> dijkstra_state \<Rightarrow> dijkstra_state" where
  "init_node start n s =
     (let s1 = (if n = start
                then s\<lparr>distances := (distances s)(n \<mapsto> 0), heap := insert_heap (heap s) 0 n\<rparr>
                else s\<lparr>distances := (distances s)(n \<mapsto> Inf),
                       heap := insert_heap (heap s) Inf n\<rparr>)
      in s1\<lparr>previous := (previous s1)(n \<mapsto> None)\<rparr>)"

text \<open>
  One round of the loop over \<open>neighbors.entries()\<close>.  A comparison with \<open>undefined\<close> (a key
  that \<open>distances\<close> does not hold) is false, and so is every comparison of a \<open>NaN\<close>, which
  is what \<open>undefined + weight\<close> and \<open>Infinity + -Infinity\<close> give.
\<close>

definition relax :: "key \<Rightarrow> key \<times> edge \<Rightarrow> dijkstra_state \<Rightarrow> dijkstra_state" where
  "relax current te s =
     (case distances s current of
        None \<Rightarrow> s
      | Some dc \<Rightarrow>
          (case js_add dc (weight (snd te)) of
             None \<Rightarrow> s
           | Some altDistance \<Rightarrow>
               (case distances s (fst te) of
                  None \<Rightarrow> s
                | Some dt \<Rightarrow>
                    if altDistance < dt
                    then s\<lparr>distances := (distances s)(fst te \<mapsto> altDistance),
                           previous := (previous s)(fst te \<mapsto> Some current),
                           heap := updateDistance (heap s) (fst te) altDistance\<rparr>
                    else s)))"

text \<open>
  The path is built by \<open>while (node) { path.unshift(node); node = previous.get(node); }\<close>.
  The loop stops at \<open>null\<close>, at \<open>undefined\<close> and at a falsy key; it need not stop at all
  when the \<open>previous\<close> links form a cycle, so the result is optional.
\<close>

partial_function (option) build_path ::
  "(key \<rightharpoonup> key option) \<Rightarrow> key option \<Rightarrow> key list \<Rightarrow> key list option" where
  "build_path prev nd path =
     (case nd of
        None \<Rightarrow> Some path
      | Some n \<Rightarrow>
          if truthy n
          then build_path prev (case prev n of None \<Rightarrow> None | Some p \<Rightarrow> p) (n # path)
          else Some path)"

declare build_path.simps [code]

text \<open>The value \<open>{ path, distance }\<close>; \<open>distance\<close> is \<open>None\<close> for \<open>undefined\<close>.\<close>

type_synonym path_result = "key list \<times> num option"

lemma length_bubbleUp [simp]: "length (bubbleUp h i) = length h"
  by (induction h i rule: bubbleUp.induct) (subst bubbleUp.simps, simp add: Let_def)

lemma length_bubbleDown [simp]: "length (bubbleDown h i) = length h"
  by (induction h i rule: bubbleDown.induct) (subst bubbleDown.simps, simp add: Let_def)

lemma length_updateDistance [simp]: "length (updateDistance h n d) = length h"
  by (simp add: updateDistance_def split: option.splits)

lemma length_heap_relax [simp]: "length (heap (relax c te s)) = length (heap s)"
  by (simp add: relax_def Let_def split: option.splits)

lemma length_heap_fold_relax [simp]:
  "length (heap (fold (relax c) es s)) = length (heap s)"
  by (induction es arbitrary: s) simp_all

lemma extractMin_length:
  "extractMin h = Inr (c, h') \<Longrightarrow> length h' < length h"
  by (auto simp: extractMin_def Let_def split: list.splits if_splits)

text \<open>The main loop \<open>while (!heap.isEmpty())\<close>; the heap loses one element each round.\<close>

function dijkstra_loop ::
  "'v graph \<Rightarrow> key \<Rightarrow> dijkstra_state \<Rightarrow> (error + path_result) option" where
  "dijkstra_loop g end s =
     (if \<not> isEmpty (heap s)
      then (case extractMin (heap s) of
              Inl e \<Rightarrow> Some (Inl e)
            | Inr (current, h') \<Rightarrow>
                if current = end
                then map_option (\<lambda>path. Inr (path, distances s end))
                       (build_path (previous s) (Some end) [])
                else (case Map_get (edges g) current of
                        None \<Rightarrow> dijkstra_loop g end (s\<lparr>heap := h'\<rparr>)
                      | Some neighbors \<Rightarrow>
                          dijkstra_loop g end (fold (relax current) neighbors (s\<lparr>heap := h'\<rparr>))))
      else Some (Inl NoPathFound))"
  by pat_completeness auto
termination
  by (relation "measure (\<lambda>(g, e, s). length (heap s))")
     (auto dest: extractMin_length)

declare dijkstra_loop.simps [simp del]

definition findShortestPath ::
  "'v graph \<Rightarrow> key \<Rightarrow> key \<Rightarrow> (error + path_result) option" where
  "findShortestPath g start end =
     (if \<not> Map_has (nodes g) start \<or> \<not> Map_has (nodes g) end then Some (Inl InvalidStartEnd)
      else dijkstra_loop g end
             (fold (init_node start) (Map_keys (nodes g))
                \<lparr>distances = Map.empty, previous = Map.empty, heap = new_BinaryHeap\<rparr>))"

section \<open>Reachability\<close>

text \<open>
  The loop of \<open>getAllConnectedNodes\<close>.  \<open>connectedNodes\<close> is a \<open>Set\<close>, which keeps insertion
  order and ignores a second \<open>add\<close>; \<open>stack.pop()\<close> takes the last element.
\<close>

definition Set_add :: "'a list \<Rightarrow> 'a \<Rightarrow> 'a list" where
  "Set_add xs x = (if x \<in> set xs then xs else xs @ [x])"

definition push_unvisited :: "key list \<Rightarrow> key \<Rightarrow> key list \<Rightarrow> key list" where
  "push_unvisited connectedNodes to stack =
     (if to \<notin> set connectedNodes then stack @ [to] else stack)"

partial_function (option) connected_loop ::
  "'v graph \<Rightarrow> key list \<Rightarrow> key list \<Rightarrow> key list option" where
  "connected_loop g connectedNodes stack =
     (if length stack > 0
      then (let current = last stack;
                stack1 = butlast stack;
                connectedNodes1 = Set_add connectedNodes current
            in case Map_get (edges g) current of
                 None \<Rightarrow> connected_loop g connectedNodes1 stack1
               | Some neighbors \<Rightarrow>
                   connected_loop g connectedNodes1
                     (fold (push_unvisited connectedNodes1) (Map_keys neighbors) stack1))
      else Some connectedNodes)"

declare connected_loop.simps [code]

definition getAllConnectedNodes :: "'v graph \<Rightarrow> key \<Rightarrow> (error + key list) option" where
  "getAllConnectedNodes g nodeId =
     (if \<not> Map_has (nodes g) nodeId then Some (Inl InvalidNode)
      else map_option Inr (connected_loop g [] [nodeId]))"

section \<open>The sample usage\<close>

definition and_then :: "error + 'a \<Rightarrow> ('a \<Rightarrow> error + 'b) \<Rightarrow> error + 'b" where
  "and_then r f = (case r of Inl e \<Rightarrow> Inl e | Inr x \<Rightarrow> f x)"

definition sample_graph :: "error + nat graph" where
  "sample_graph =
     and_then (and_then (and_then
       (addEdge (addNode (addNode (addNode (addNode new_Graph ''A'' 10) ''B'' 20) ''C'' 30)
          ''D'' 40) ''A'' ''B'' (Fin 5))
       (\<lambda>g. addEdge g ''B'' ''C'' (Fin 8)))
       (\<lambda>g. addEdge g ''C'' ''D'' (Fin 12)))
       (\<lambda>g. addEdge g ''A'' ''D'' (Fin 15))"

text \<open>The lookup \<open>this.edges.get(from)?.get(to)\<close> of the adjacency index.\<close>

definition get_edge :: "'v graph \<Rightarrow> key \<Rightarrow> key \<Rightarrow> edge option" where
  "get_edge g from to =
     (case Map_get (edges g) from of None \<Rightarrow> None | Some m \<Rightarrow> Map_get m to)"

section \<open>Notions that the properties are stated with\<close>

text \<open>The sample usage up to and including \<open>graph.removeNode("B")\<close>.\<close>

definition sample_graph_removed :: "error + nat graph" where
  "sample_graph_removed = and_then sample_graph (\<lambda>g. removeNode g ''B'')"

text \<open>Two nodes and no edge.\<close>

definition two_nodes :: "nat graph" where
  "two_nodes = addNode (addNode new_Graph ''A'' 1) ''B'' 2"

text \<open>One node, whose key is the empty string.\<close>

definition empty_key_node :: "nat graph" where
  "empty_key_node = addNode new_Graph [] 1"

text \<open>The graph that a sequence of calls has built, none of which threw.\<close>

definition graph_of :: "error + 'v graph \<Rightarrow> 'v graph" where
  "graph_of r = (case r of Inl e \<Rightarrow> new_Graph | Inr g \<Rightarrow> g)"

text \<open>A heap of three elements.\<close>

definition heap_ABC :: heap where
  "heap_ABC = insert_heap (insert_heap (insert_heap new_BinaryHeap Inf ''B'') 0 ''A'') (Fin 7) ''C''"

text \<open>
  The position \<open>Math.floor((index - 1) / 2)\<close> that \<open>bubbleUp\<close> takes for the parent of
  \<open>index\<close>, and the order invariant of the heap array: every non-root position holds a key
  that is at least the key at its parent position.
\<close>

definition parent :: "nat \<Rightarrow> nat" where
  "parent i = (i - 1) div 2"

definition heap_ok :: "heap \<Rightarrow> bool" where
  "heap_ok h = (\<forall>i \<in> {1..<length h}. distance (h ! parent i) \<le> distance (h ! i))"

text \<open>The entries of the adjacency index, as triples of source, target and edge.\<close>

definition all_edges :: "'v graph \<Rightarrow> (key \<times> key \<times> edge) list" where
  "all_edges g = concat (map (\<lambda>(f, m). map (\<lambda>(t, e). (f, t, e)) m) (edges g))"

definition nonneg_weights :: "'v graph \<Rightarrow> bool" where
  "nonneg_weights g = (\<forall>(f, t, e) \<in> set (all_edges g). 0 \<le> weight e)"

definition adjacency_consistent :: "'v graph \<Rightarrow> bool" where
  "adjacency_consistent g =
     (\<forall>(f, t, e) \<in> set (all_edges g). Map_has (nodes g) f \<and> Map_has (nodes g) t)"

text \<open>
  A path is a non-empty list of keys whose consecutive pairs are edges of the index.  Its
  weight, as the program adds numbers: the weights are added one after the other, from the
  start of the path on, each partial sum rounded as \<open>+\<close> rounds it.
\<close>

fun path_weight_from :: "'v graph \<Rightarrow> num \<Rightarrow> key list \<Rightarrow> num option" where
  "path_weight_from g acc [] = None"
| "path_weight_from g acc [v] = Some acc"
| "path_weight_from g acc (u # v # vs) =
     (case get_edge g u v of
        None \<Rightarrow> None
      | Some e \<Rightarrow>
          (case js_add acc (weight e) of
             None \<Rightarrow> None
           | Some acc' \<Rightarrow> path_weight_from g acc' (v # vs)))"

definition path_weight :: "'v graph \<Rightarrow> key list \<Rightarrow> num option" where
  "path_weight g q = path_weight_from g 0 q"

text \<open>The weight of a path of finite weights as the exact sum, without any rounding.\<close>

fun exact_path_weight :: "'v graph \<Rightarrow> key list \<Rightarrow> rat option" where
  "exact_path_weight g [] = None"
| "exact_path_weight g [v] = Some 0"
| "exact_path_weight g (u # v # vs) =
     (case get_edge g u v of
        None \<Rightarrow> None
      | Some e \<Rightarrow>
          (case weight e of
             Fin x \<Rightarrow> map_option (\<lambda>w. x + w) (exact_path_weight g (v # vs))
           | _ \<Rightarrow> None))"

text \<open>Three nodes in a row; the first edge weighs \<open>2 ^ 53\<close>, the second 3.\<close>

definition big_weights :: "nat graph" where
  "big_weights =
     graph_of (and_then
       (addEdge (addNode (addNode (addNode new_Graph ''A'' 1) ''B'' 2) ''C'' 3)
          ''A'' ''B'' (Fin 9007199254740992))
       (\<lambda>g. addEdge g ''B'' ''C'' (Fin 3)))"

section \<open>Node insertion and removal, edge insertion\<close>

lemma Map_has_set: "Map_has (Map_set m k v) k' = (k' = k \<or> Map_has m k')"
  by (simp add: Map_has_def Map_set_def update_conv')

lemma Map_get_set: "Map_get (Map_set m k v) k' = (if k' = k then Some v else Map_get m k')"
  by (simp add: Map_get_def Map_set_def update_conv')

lemma Map_get_single: "Map_get [(k, v)] k' = (if k' = k then Some v else None)"
  by (simp add: Map_get_def)

lemma Map_keys_set_present: "Map_has m k \<Longrightarrow> Map_keys (Map_set m k v) = Map_keys m"
  by (auto simp: Map_has_def Map_keys_def Map_set_def update_keys map_of_eq_None_iff)

text \<open>
  The node registry stays a map (no key twice) under every operation of the graph.
\<close>

lemma distinct_keys_addNode:
  "distinct (Map_keys (nodes g)) \<Longrightarrow> distinct (Map_keys (nodes (addNode g n v)))"
  by (simp add: addNode_def Map_keys_def Map_set_def distinct_update)

lemma distinct_keys_addEdge:
  "distinct (Map_keys (nodes g)) \<Longrightarrow> addEdge g f t w = Inr g' \<Longrightarrow>
   distinct (Map_keys (nodes g'))"
  by (auto simp: addEdge_def Let_def Map_keys_def Map_set_def distinct_update
      split: if_splits option.splits)

lemma nodes_removeNode_edges: "removeNode_edges es g = Inr g' \<Longrightarrow> nodes g' = nodes g"
  by (induction es arbitrary: g) (auto split: option.splits)

lemma distinct_keys_removeNode:
  "distinct (Map_keys (nodes g)) \<Longrightarrow> removeNode g n = Inr g' \<Longrightarrow>
   distinct (Map_keys (nodes g'))"
  by (auto simp: removeNode_def Map_keys_def Map_delete_def distinct_delete
      split: if_splits option.splits dest!: nodes_removeNode_edges)

text \<open>
  C1.  After \<open>removeNode(n)\<close> no edge of the graph has \<open>n\<close> as its source or as its target.
  The loop of \<open>removeNode\<close> walks the removed node's own \<open>edges\<close> map, which holds the edges
  leaving the node only: in the sample usage, after \<open>removeNode("B")\<close> the adjacency index
  still holds the edge from A to B although B is no longer a node.
\<close>

theorem removeNode_keeps_incoming_edge:
  "(case sample_graph_removed of
      Inl e \<Rightarrow> False
    | Inr g \<Rightarrow>
        \<not> Map_has (nodes g) ''B''
        \<and> get_edge g ''A'' ''B'' = Some \<lparr>efrom = ''A'', eto = ''B'', weight = Fin 5\<rparr>)"
  by code_simp

text \<open>
  C2, as the claim states it, fails: \<open>addEdge\<close> has no check of the weight, and a negative
  weight between two present nodes is stored like any other.
\<close>

theorem addEdge_negative_weight_accepted:
  "addEdge two_nodes ''A'' ''B'' (Fin (- 1)) =
     Inr \<lparr>nodes =
            [(''A'', \<lparr>node_value = 1,
                      node_edges = [\<lparr>efrom = ''A'', eto = ''B'', weight = Fin (- 1)\<rparr>]\<rparr>),
             (''B'', \<lparr>node_value = 2, node_edges = []\<rparr>)],
          edges = [(''A'', [(''B'', \<lparr>efrom = ''A'', eto = ''B'', weight = Fin (- 1)\<rparr>)])]\<rparr>"
  by code_simp

text \<open>
  C2, amended.  For every graph and every call \<open>addEdge(from, to, weight)\<close> where both
  endpoints exist, the call succeeds whatever the weight is (negative ones included), the
  adjacency index then holds exactly one edge for \<open>(from, to)\<close>, with that weight, every
  other edge of the index is as before, and the registry has the same keys and payloads.
\<close>

theorem addEdge_present_endpoints:
  assumes "Map_has (nodes g) from" and "Map_has (nodes g) to"
  shows "\<exists>g'. addEdge g from to w = Inr g'
           \<and> (\<forall>f t. get_edge g' f t =
                (if f = from \<and> t = to then Some \<lparr>efrom = from, eto = to, weight = w\<rparr>
                 else get_edge g f t))
           \<and> Map_keys (nodes g') = Map_keys (nodes g)
           \<and> (\<forall>k. map_option node_value (Map_get (nodes g') k) =
                    map_option node_value (Map_get (nodes g) k))"
proof -
  obtain n where n: "Map_get (nodes g) from = Some n"
    using assms(1) by (auto simp: Map_has_def Map_get_def)
  define e where "e = \<lparr>efrom = from, eto = to, weight = w\<rparr>"
  define edges' where "edges' = (case Map_get (edges g) from of
      None \<Rightarrow> Map_set (edges g) from [(to, e)]
    | Some m \<Rightarrow> Map_set (edges g) from (Map_set m to e))"
  define nodes' where "nodes' = Map_set (nodes g) from (n\<lparr>node_edges := node_edges n @ [e]\<rparr>)"
  define g' where "g' = g\<lparr>nodes := nodes', edges := edges'\<rparr>"
  have res: "addEdge g from to w = Inr g'"
    unfolding g'_def nodes'_def edges'_def e_def
    using assms n by (simp add: addEdge_def Let_def)
  have lookup: "get_edge g' f t = (if f = from \<and> t = to then Some e else get_edge g f t)" for f t
    by (cases "Map_get (edges g) from")
       (auto simp: get_edge_def g'_def edges'_def Map_get_set Map_get_single)
  have keys: "Map_keys (nodes g') = Map_keys (nodes g)"
    using assms(1) by (simp add: g'_def nodes'_def Map_keys_set_present)
  have vals: "map_option node_value (Map_get (nodes g') k) =
      map_option node_value (Map_get (nodes g) k)" for k
    using n by (simp add: g'_def nodes'_def Map_get_set)
  from res lookup keys vals show ?thesis
    unfolding e_def by blast
qed

theorem addEdge_present_endpoints_witness:
  "Map_has (nodes two_nodes) ''A'' \<and> Map_has (nodes two_nodes) ''B''
   \<and> (\<exists>g'. addEdge two_nodes ''A'' ''B'' (Fin (- 1)) = Inr g'
          \<and> get_edge g' ''A'' ''B'' = Some \<lparr>efrom = ''A'', eto = ''B'', weight = Fin (- 1)\<rparr>
          \<and> get_edge g' ''B'' ''A'' = get_edge two_nodes ''B'' ''A'')"
proof -
  have a: "Map_has (nodes two_nodes) ''A''" by code_simp
  have b: "Map_has (nodes two_nodes) ''B''" by code_simp
  obtain g' where g': "addEdge two_nodes ''A'' ''B'' (Fin (- 1)) = Inr g'"
    and l: "\<And>f t. get_edge g' f t =
      (if f = ''A'' \<and> t = ''B'' then Some \<lparr>efrom = ''A'', eto = ''B'', weight = Fin (- 1)\<rparr>
       else get_edge two_nodes f t)"
    using addEdge_present_endpoints [OF a b, of "Fin (- 1)"] by blast
  have "get_edge g' ''A'' ''B'' = Some \<lparr>efrom = ''A'', eto = ''B'', weight = Fin (- 1)\<rparr>"
    by (simp add: l)
  moreover have "get_edge g' ''B'' ''A'' = get_edge two_nodes ''B'' ''A''"
    by (simp add: l)
  ultimately show ?thesis
    using a b g' by blast
qed

text \<open>
  C10, as the claim states it, fails when the key is already in the graph before the first
  of the two calls: then the first call is a no-op as well and the payload stays the one the
  graph had, not \<open>v1\<close>.
\<close>

theorem addNode_existing_key_keeps_old_value:
  "map_option node_value (Map_get (nodes (addNode (addNode two_nodes ''A'' 7) ''A'' 8)) ''A'')
   = Some 1"
  by code_simp

text \<open>
  C10, amended.  For every graph, key \<open>n\<close> and values \<open>v1\<close>, \<open>v2\<close>: \<open>addNode(n, v2)\<close> after
  \<open>addNode(n, v1)\<close> changes nothing at all (the graph is the one the first call left), and
  the value stored under \<open>n\<close> is then \<open>v1\<close> when \<open>n\<close> was absent before the first call and the
  payload the graph already had otherwise.
\<close>

theorem addNode_twice:
  "addNode (addNode g n v1) n v2 = addNode g n v1
   \<and> map_option node_value (Map_get (nodes (addNode (addNode g n v1) n v2)) n) =
       (if Map_has (nodes g) n then map_option node_value (Map_get (nodes g) n) else Some v1)"
  by (simp add: addNode_def Map_has_set Map_get_set)

section \<open>The heap order\<close>

lemma heap_ok_iff:
  "heap_ok h \<longleftrightarrow> (\<forall>j<length h. 0 < j \<longrightarrow> distance (h ! parent j) \<le> distance (h ! j))"
  unfolding heap_ok_def by (auto simp: Suc_le_eq)

lemma parent_less: "0 < i \<Longrightarrow> parent i < i"
  by (auto simp: parent_def)

lemma bubbleUp_unfold:
  "bubbleUp h i =
     (if 0 < i
      then if distance (h ! parent i) \<le> distance (h ! i) then h
           else bubbleUp (swap h i (parent i)) (parent i)
      else h)"
  by (subst bubbleUp.simps) (simp add: parent_def Let_def)

lemma swap_nth:
  "i < length h \<Longrightarrow> j < length h \<Longrightarrow>
   swap h i j ! k = (if k = j then h ! i else if k = i then h ! j else h ! k)"
  by (simp add: swap_def nth_list_update)

lemma mset_swap_heap: "i < length h \<Longrightarrow> j < length h \<Longrightarrow> mset (swap h i j) = mset h"
  unfolding swap_def by (simp add: mset_swap)

definition up_inv :: "heap \<Rightarrow> nat \<Rightarrow> bool" where
  "up_inv h i =
     ((\<forall>j<length h. 0 < j \<longrightarrow> j \<noteq> i \<longrightarrow> distance (h ! (parent j)) \<le> distance (h ! j))
      \<and> (\<forall>j<length h. 0 < j \<longrightarrow> 0 < i \<longrightarrow> parent j = i \<longrightarrow>
             distance (h ! (parent i)) \<le> distance (h ! j)))"

lemma up_inv_swap:
  assumes i: "0 < i" "i < length h"
    and inv: "up_inv h i"
    and gt: "\<not> distance (h ! (parent i)) \<le> distance (h ! i)"
  shows "up_inv (swap h i (parent i)) (parent i)"
proof -
  define p where "p = parent i"
  have p: "p < i" "p < length h"
    using i parent_less [of i] by (auto simp: p_def)
  have nth: "swap h i p ! k = (if k = p then h ! i else if k = i then h ! p else h ! k)" for k
    using i p by (simp add: swap_nth)
  have lt: "distance (h ! i) < distance (h ! p)"
    using gt by (simp add: p_def)
  have A: "distance (h ! (parent j)) \<le> distance (h ! j)"
    if "j < length h" "0 < j" "j \<noteq> i" for j
    using inv that by (simp add: up_inv_def)
  have B: "distance (h ! p) \<le> distance (h ! j)"
    if "j < length h" "0 < j" "parent j = i" for j
    using inv that i by (simp add: up_inv_def p_def)
  have part1: "distance (swap h i p ! (parent j)) \<le> distance (swap h i p ! j)"
    if j: "j < length h" "0 < j" "j \<noteq> p" for j
  proof -
    consider "j = i" | "j \<noteq> i" "parent j = i" | "j \<noteq> i" "parent j = p"
      | "j \<noteq> i" "parent j \<noteq> i" "parent j \<noteq> p"
      by blast
    then show ?thesis
    proof cases
      case 1
      then show ?thesis using lt p by (simp add: nth p_def [symmetric])
    next
      case 2
      then have "parent j \<noteq> p" using p by auto
      then show ?thesis using 2 j(3) B [OF j(1,2)] by (simp add: nth)
    next
      case 3
      have "distance (h ! p) \<le> distance (h ! j)" using A [OF j(1,2) 3(1)] 3(2) by simp
      then show ?thesis using 3 j lt p by (simp add: nth)
    next
      case 4
      then show ?thesis using A [OF j(1,2) 4(1)] j by (simp add: nth)
    qed
  qed
  have part2: "distance (swap h i p ! (parent p)) \<le> distance (swap h i p ! j)"
    if j: "j < length h" "0 < j" "0 < p" "parent j = p" for j
  proof -
    have pp: "parent p < p" using j(3) by (rule parent_less)
    then have ne: "parent p \<noteq> p" "parent p \<noteq> i" using p by auto
    have hp: "distance (h ! (parent p)) \<le> distance (h ! p)"
      using A [of p] p j(3) by simp
    have jp: "j \<noteq> p" using j parent_less [of j] by auto
    show ?thesis
    proof (cases "j = i")
      case True
      then show ?thesis using hp ne jp by (simp add: nth)
    next
      case False
      have "distance (h ! p) \<le> distance (h ! j)" using A [OF j(1,2) False] j(4) by simp
      then show ?thesis using hp ne jp False by (simp add: nth)
    qed
  qed
  show ?thesis
    unfolding up_inv_def p_def [symmetric] using part1 part2 by simp
qed

lemma bubbleUp_heap_ok:
  "i < length h \<Longrightarrow> up_inv h i \<Longrightarrow> heap_ok (bubbleUp h i)"
proof (induction h i rule: bubbleUp.induct)
  case (1 h index)
  show ?case
  proof (cases "index > 0")
    case False
    then have "bubbleUp h index = h" by (subst bubbleUp_unfold) simp
    moreover have "heap_ok h"
      using "1.prems" False by (auto simp: heap_ok_iff up_inv_def)
    ultimately show ?thesis by simp
  next
    case True
    define p where "p = parent index"
    show ?thesis
    proof (cases "distance (h ! p) \<le> distance (h ! index)")
      case le: True
      then have "bubbleUp h index = h"
        using True by (subst bubbleUp_unfold) (simp add: p_def)
      moreover have "heap_ok h"
        unfolding heap_ok_iff
      proof (intro allI impI)
        fix j assume "j < length h" "0 < j"
        then show "distance (h ! (parent j)) \<le> distance (h ! j)"
          using "1.prems"(2) le by (cases "j = index") (auto simp: up_inv_def p_def)
      qed
      ultimately show ?thesis by simp
    next
      case gt: False
      have eq: "bubbleUp h index = bubbleUp (swap h index p) p"
        using True gt by (subst bubbleUp_unfold) (simp add: p_def)
      have "p < length (swap h index p)"
        using "1.prems"(1) True parent_less [of index] by (simp add: p_def)
      moreover have "up_inv (swap h index p) p"
        unfolding p_def using True "1.prems" gt by (intro up_inv_swap) (simp_all add: p_def)
      ultimately have "heap_ok (bubbleUp (swap h index p) p)"
        using "1.IH" [OF True refl] gt by (simp add: p_def parent_def)
      then show ?thesis by (simp add: eq)
    qed
  qed
qed

definition smallest :: "heap \<Rightarrow> nat \<Rightarrow> nat" where
  "smallest h i =
     (let s = (if i * 2 + 1 < length h \<and> distance (h ! (i * 2 + 1)) < distance (h ! i)
               then i * 2 + 1 else i)
      in if i * 2 + 2 < length h \<and> distance (h ! (i * 2 + 2)) < distance (h ! s)
         then i * 2 + 2 else s)"

lemma bubbleDown_unfold:
  "bubbleDown h i =
     (if i < length h
      then if smallest h i = i then h
           else bubbleDown (swap h i (smallest h i)) (smallest h i)
      else h)"
  by (subst bubbleDown.simps) (simp add: smallest_def Let_def)

lemma parent_eq_iff: "0 < j \<Longrightarrow> parent j = i \<longleftrightarrow> j = i * 2 + 1 \<or> j = i * 2 + 2"
  unfolding parent_def by presburger

lemma smallest_cases: "smallest h i = i \<or> smallest h i = i * 2 + 1 \<or> smallest h i = i * 2 + 2"
  by (simp add: smallest_def Let_def)

lemma smallest_less: "i < length h \<Longrightarrow> smallest h i < length h"
  by (simp add: smallest_def Let_def)

lemma smallest_le_self: "distance (h ! smallest h i) \<le> distance (h ! i)"
  by (auto simp: smallest_def Let_def)

lemma smallest_lt_self: "smallest h i \<noteq> i \<Longrightarrow> distance (h ! smallest h i) < distance (h ! i)"
  by (auto simp: smallest_def Let_def split: if_splits)

lemma smallest_le_child:
  "j < length h \<Longrightarrow> 0 < j \<Longrightarrow> parent j = i \<Longrightarrow> distance (h ! smallest h i) \<le> distance (h ! j)"
  by (auto simp: parent_eq_iff smallest_def Let_def)

lemma smallest_parent: "smallest h i \<noteq> i \<Longrightarrow> parent (smallest h i) = i \<and> i < smallest h i"
  using smallest_cases [of h i] by (auto simp: parent_def)

definition down_inv :: "heap \<Rightarrow> nat \<Rightarrow> bool" where
  "down_inv h i =
     ((\<forall>j<length h. 0 < j \<longrightarrow> parent j \<noteq> i \<longrightarrow> distance (h ! parent j) \<le> distance (h ! j))
      \<and> (\<forall>j<length h. 0 < j \<longrightarrow> 0 < i \<longrightarrow> parent j = i \<longrightarrow>
             distance (h ! parent i) \<le> distance (h ! j)))"

lemma down_inv_swap:
  assumes i: "i < length h"
    and inv: "down_inv h i"
    and ne: "smallest h i \<noteq> i"
  shows "down_inv (swap h i (smallest h i)) (smallest h i)"
proof -
  define s where "s = smallest h i"
  have s: "s < length h" "parent s = i" "i < s" "s \<noteq> i" "0 < s"
    using i ne smallest_less [of i h] smallest_parent [of h i] by (auto simp: s_def)
  have nth: "swap h i s ! k = (if k = s then h ! i else if k = i then h ! s else h ! k)" for k
    using i s by (simp add: swap_nth)
  have lt: "distance (h ! s) < distance (h ! i)"
    using ne smallest_lt_self [of h i] by (simp add: s_def)
  have child: "distance (h ! s) \<le> distance (h ! j)"
    if "j < length h" "0 < j" "parent j = i" for j
    using smallest_le_child [OF that] by (simp add: s_def)
  have A: "distance (h ! parent j) \<le> distance (h ! j)"
    if "j < length h" "0 < j" "parent j \<noteq> i" for j
    using inv that by (simp add: down_inv_def)
  have B: "distance (h ! parent i) \<le> distance (h ! j)"
    if "j < length h" "0 < j" "0 < i" "parent j = i" for j
    using inv that by (simp add: down_inv_def)
  have part1: "distance (swap h i s ! parent j) \<le> distance (swap h i s ! j)"
    if j: "j < length h" "0 < j" "parent j \<noteq> s" for j
  proof -
    consider "j = s" | "j \<noteq> s" "parent j = i" | "j = i" "parent j \<noteq> i"
      | "j \<noteq> s" "j \<noteq> i" "parent j \<noteq> i"
      by blast
    then show ?thesis
    proof cases
      case 1
      then show ?thesis using lt s by (simp add: nth)
    next
      case 2
      then have "j \<noteq> i" using parent_less [OF j(2)] by auto
      then show ?thesis using 2 child [OF j(1,2)] by (simp add: nth)
    next
      case 3
      then have pi: "0 < i" "parent i \<noteq> i" "parent i \<noteq> s"
        using j parent_less [of i] s by auto
      have "distance (h ! parent i) \<le> distance (h ! s)"
        using B [OF s(1) s(5) pi(1) s(2)] .
      then show ?thesis using 3 pi s by (simp add: nth)
    next
      case 4
      then show ?thesis using A [OF j(1,2) 4(3)] j(3) by (simp add: nth)
    qed
  qed
  have part2: "distance (swap h i s ! parent s) \<le> distance (swap h i s ! j)"
    if j: "j < length h" "0 < j" "parent j = s" for j
  proof -
    have "s < j" using parent_less [OF j(2)] j(3) by simp
    then have ne: "j \<noteq> s" "j \<noteq> i" using s by auto
    have "distance (h ! s) \<le> distance (h ! j)"
      using A [OF j(1,2)] j(3) s by simp
    then show ?thesis using ne s by (simp add: nth)
  qed
  show ?thesis
    unfolding down_inv_def s_def [symmetric] using part1 part2 by simp
qed

lemma bubbleDown_heap_ok:
  "down_inv h i \<Longrightarrow> i < length h \<Longrightarrow> heap_ok (bubbleDown h i)"
proof (induction h i rule: bubbleDown.induct)
  case (1 h index)
  define s where "s = smallest h index"
  show ?case
  proof (cases "s = index")
    case True
    then have "bubbleDown h index = h"
      by (subst bubbleDown_unfold) (simp add: s_def)
    moreover have "heap_ok h"
      unfolding heap_ok_iff
    proof (intro allI impI)
      fix j assume j: "j < length h" "0 < j"
      show "distance (h ! parent j) \<le> distance (h ! j)"
      proof (cases "parent j = index")
        case False
        then show ?thesis using "1.prems"(1) j by (simp add: down_inv_def)
      next
        case p: True
        then show ?thesis using smallest_le_child [OF j p] True by (simp add: s_def)
      qed
    qed
    ultimately show ?thesis by simp
  next
    case False
    have eq: "bubbleDown h index = bubbleDown (swap h index s) s"
      using False "1.prems"(2) by (subst bubbleDown_unfold) (simp add: s_def)
    have inv: "down_inv (swap h index s) s"
      unfolding s_def using "1.prems" False by (intro down_inv_swap) (simp_all add: s_def)
    have len: "s < length (swap h index s)"
      using "1.prems"(2) smallest_less [of index h] by (simp add: s_def)
    have IH: "smallest h index \<noteq> index
        \<Longrightarrow> down_inv (swap h index (smallest h index)) (smallest h index)
        \<Longrightarrow> smallest h index < length (swap h index (smallest h index))
        \<Longrightarrow> heap_ok (bubbleDown (swap h index (smallest h index)) (smallest h index))"
      unfolding smallest_def Let_def
      by (rule "1.IH" [OF "1.prems"(2) refl refl refl refl])
    have "heap_ok (bubbleDown (swap h index s) s)"
      using IH False inv len by (simp add: s_def)
    then show ?thesis by (simp add: eq)
  qed
qed

lemma heap_ok_Nil: "heap_ok []"
  by (simp add: heap_ok_def)

lemma mset_bubbleUp: "i < length h \<Longrightarrow> mset (bubbleUp h i) = mset h"
proof (induction h i rule: bubbleUp.induct)
  case (1 h index)
  show ?case
  proof (cases "0 < index \<and> \<not> distance (h ! parent index) \<le> distance (h ! index)")
    case False
    then have "bubbleUp h index = h" by (subst bubbleUp_unfold) auto
    then show ?thesis by simp
  next
    case True
    then have eq: "bubbleUp h index = bubbleUp (swap h index (parent index)) (parent index)"
      by (subst bubbleUp_unfold) simp
    have p: "parent index < length h"
      using True "1.prems" parent_less [of index] by simp
    have "mset (bubbleUp (swap h index (parent index)) (parent index))
        = mset (swap h index (parent index))"
      using "1.IH" [OF _ refl] True p by (simp add: parent_def)
    then show ?thesis using p "1.prems" by (simp add: eq mset_swap_heap)
  qed
qed

lemma mset_bubbleDown: "mset (bubbleDown h i) = mset h"
proof (induction h i rule: bubbleDown.induct)
  case (1 h index)
  show ?case
  proof (cases "index < length h \<and> smallest h index \<noteq> index")
    case False
    then have "bubbleDown h index = h" by (subst bubbleDown_unfold) auto
    then show ?thesis by simp
  next
    case True
    then have eq: "bubbleDown h index
        = bubbleDown (swap h index (smallest h index)) (smallest h index)"
      by (subst bubbleDown_unfold) simp
    have IH: "smallest h index \<noteq> index
        \<Longrightarrow> mset (bubbleDown (swap h index (smallest h index)) (smallest h index))
          = mset (swap h index (smallest h index))"
      unfolding smallest_def Let_def
      using True by (intro "1.IH" [OF _ refl refl refl refl]) simp_all
    show ?thesis
      using IH True smallest_less [of index h] by (simp add: eq mset_swap_heap)
  qed
qed

lemma heap_ok_insert: "heap_ok h \<Longrightarrow> heap_ok (insert_heap h d n)"
proof -
  assume ok: "heap_ok h"
  let ?e = "\<lparr>distance = d, node = n\<rparr>"
  have "up_inv (h @ [?e]) (length h)"
    unfolding up_inv_def
  proof (intro conjI allI impI)
    fix j assume "j < length (h @ [?e])" "0 < j" "j \<noteq> length h"
    then have j: "j < length h" by simp
    then have "parent j < length h" using parent_less [OF \<open>0 < j\<close>] by simp
    then show "distance ((h @ [?e]) ! parent j) \<le> distance ((h @ [?e]) ! j)"
      using ok j \<open>0 < j\<close> by (simp add: heap_ok_iff nth_append)
  next
    fix j assume "j < length (h @ [?e])" "0 < j" "parent j = length h"
    then have False using parent_less [of j] by simp
    then show "distance ((h @ [?e]) ! parent (length h)) \<le> distance ((h @ [?e]) ! j)" ..
  qed
  then show ?thesis
    unfolding insert_heap_def by (intro bubbleUp_heap_ok) simp_all
qed

lemma heap_ok_extractMin:
  assumes ok: "heap_ok h" and ex: "extractMin h = Inr (c, h')"
  shows "heap_ok h'"
proof (cases "length (butlast h) > 0")
  case False
  then have "h' = butlast h" "length (butlast h) = 0"
    using ex by (auto simp: extractMin_def Let_def split: list.splits)
  then show ?thesis by (simp add: heap_ok_def)
next
  case True
  let ?h1 = "(butlast h)[0 := last h]"
  have h': "h' = bubbleDown ?h1 0"
    using ex True by (auto simp: extractMin_def Let_def split: list.splits)
  have "down_inv ?h1 0"
    unfolding down_inv_def
  proof (intro conjI allI impI)
    fix j assume j: "j < length ?h1" "0 < j" "parent j \<noteq> 0"
    then have jl: "j < length h" "parent j < length (butlast h)" "j < length (butlast h)"
      using parent_less [of j] by auto
    have "distance (h ! parent j) \<le> distance (h ! j)"
      using ok jl j by (simp add: heap_ok_iff)
    then show "distance (?h1 ! parent j) \<le> distance (?h1 ! j)"
      using j jl by (simp add: nth_butlast)
  qed simp
  then show ?thesis
    unfolding h' using True by (intro bubbleDown_heap_ok) simp_all
qed

lemma findIndex_Some:
  "findIndex P xs = Some i \<Longrightarrow> i < length xs \<and> P (xs ! i) \<and> (\<forall>j<i. \<not> P (xs ! j))"
proof (induction xs arbitrary: i)
  case Nil
  then show ?case by simp
next
  case (Cons x xs)
  show ?case
  proof (cases "P x")
    case True
    then show ?thesis using Cons.prems by simp
  next
    case False
    then obtain k where k: "findIndex P xs = Some k" "i = Suc k"
      using Cons.prems by auto
    from Cons.IH [OF k(1)] False k(2) show ?thesis
      by (auto simp: nth_Cons split: nat.splits)
  qed
qed

lemma findIndex_None: "findIndex P xs = None \<longleftrightarrow> (\<forall>x \<in> set xs. \<not> P x)"
  by (induction xs) auto

lemma heap_ok_update:
  assumes ok: "heap_ok h" and i: "i < length h" and d: "d \<le> distance (h ! i)"
  shows "up_inv (h[i := (h ! i)\<lparr>distance := d\<rparr>]) i"
  unfolding up_inv_def
proof (intro conjI allI impI)
  let ?h = "h[i := (h ! i)\<lparr>distance := d\<rparr>]"
  fix j assume j: "j < length ?h" "0 < j" "j \<noteq> i"
  then have le: "distance (h ! parent j) \<le> distance (h ! j)"
    using ok by (simp add: heap_ok_iff)
  have "parent j < length h" using j parent_less [of j] by simp
  then show "distance (?h ! parent j) \<le> distance (?h ! j)"
    using j le d i by (auto simp: nth_list_update)
next
  let ?h = "h[i := (h ! i)\<lparr>distance := d\<rparr>]"
  fix j assume j: "j < length ?h" "0 < j" "0 < i" "parent j = i"
  then have ji: "j \<noteq> i" "parent i \<noteq> i" using parent_less [of j] parent_less [of i] by auto
  have "distance (h ! parent i) \<le> distance (h ! i)" "distance (h ! i) \<le> distance (h ! j)"
    using ok i j by (auto simp: heap_ok_iff)
  then show "distance (?h ! parent i) \<le> distance (?h ! j)"
    using ji j i by (simp add: nth_list_update)
qed

lemma heap_ok_updateDistance: "heap_ok h \<Longrightarrow> heap_ok (updateDistance h n d)"
proof -
  assume ok: "heap_ok h"
  show ?thesis
  proof (cases "findIndex (\<lambda>e. node e = n) h")
    case None
    then show ?thesis using ok by (simp add: updateDistance_def)
  next
    case (Some i)
    then have i: "i < length h" using findIndex_Some by fastforce
    show ?thesis
    proof (cases "d < distance (h ! i)")
      case False
      then show ?thesis using ok Some by (simp add: updateDistance_def)
    next
      case True
      then have "up_inv (h[i := (h ! i)\<lparr>distance := d\<rparr>]) i"
        using ok i by (intro heap_ok_update) simp_all
      then have "heap_ok (bubbleUp (h[i := (h ! i)\<lparr>distance := d\<rparr>]) i)"
        using i by (intro bubbleUp_heap_ok) simp_all
      then show ?thesis using Some True by (simp add: updateDistance_def)
    qed
  qed
qed

lemma heap_ok_root_le:
  assumes ok: "heap_ok h" and i: "i < length h"
  shows "distance (h ! 0) \<le> distance (h ! i)"
  using i
proof (induction i rule: less_induct)
  case (less i)
  show ?case
  proof (cases "i = 0")
    case True
    then show ?thesis by simp
  next
    case False
    then have p: "parent i < i" by (simp add: parent_less)
    have "distance (h ! 0) \<le> distance (h ! parent i)"
      using less.IH [OF p] p less.prems by simp
    moreover have "distance (h ! parent i) \<le> distance (h ! i)"
      using ok less.prems False by (simp add: heap_ok_iff)
    ultimately show ?thesis by (rule order_trans)
  qed
qed

text \<open>
  C7.  The order invariant of the binary heap (every non-root position holds a key that is
  greater than or equal to its parent's key) holds of the empty heap and is preserved by
  every \<open>insert\<close>, by every \<open>extractMin\<close> on a non-empty heap (which succeeds), and by every
  \<open>updateDistance\<close>.
\<close>

theorem heap_order_invariant:
  "heap_ok new_BinaryHeap
   \<and> (heap_ok h \<longrightarrow> heap_ok (insert_heap h d n))
   \<and> (heap_ok h \<longrightarrow> h \<noteq> [] \<longrightarrow> (\<exists>c h'. extractMin h = Inr (c, h') \<and> heap_ok h'))
   \<and> (heap_ok h \<longrightarrow> heap_ok (updateDistance h n d))"
proof (intro conjI impI)
  show "heap_ok new_BinaryHeap"
    by (simp add: new_BinaryHeap_def heap_ok_Nil)
  show "heap_ok (insert_heap h d n)" if "heap_ok h"
    using that by (rule heap_ok_insert)
  show "heap_ok (updateDistance h n d)" if "heap_ok h"
    using that by (rule heap_ok_updateDistance)
  show "\<exists>c h'. extractMin h = Inr (c, h') \<and> heap_ok h'" if ok: "heap_ok h" and ne: "h \<noteq> []"
  proof -
    have "\<exists>c h'. extractMin h = Inr (c, h')"
      using ne by (cases h) (simp_all add: extractMin_def Let_def)
    then obtain c h' where ex: "extractMin h = Inr (c, h')"
      by blast
    with ok have "heap_ok h'" by (rule heap_ok_extractMin)
    with ex show ?thesis by blast
  qed
qed

theorem heap_order_invariant_witness:
  "heap_ok heap_ABC \<and> heap_ABC \<noteq> []
   \<and> heap_ok (insert_heap heap_ABC (Fin 3) ''D'')
   \<and> (\<exists>c h'. extractMin heap_ABC = Inr (c, h') \<and> heap_ok h')
   \<and> heap_ok (updateDistance heap_ABC ''B'' (Fin 2))"
proof -
  have ok: "heap_ok heap_ABC" by code_simp
  have ne: "heap_ABC \<noteq> []" by code_simp
  from heap_order_invariant [of heap_ABC "Fin 3" "''D''"] ok
  have a: "heap_ok (insert_heap heap_ABC (Fin 3) ''D'')" by blast
  from heap_order_invariant [of heap_ABC "Fin 2" "''B''"] ok ne
  have b: "\<exists>c h'. extractMin heap_ABC = Inr (c, h') \<and> heap_ok h'"
    and c: "heap_ok (updateDistance heap_ABC ''B'' (Fin 2))" by blast+
  from ok ne a b c show ?thesis by blast
qed

text \<open>
  C8.  For an item that is present in the heap, \<open>updateDistance(item, newKey)\<close> works on the
  first position \<open>i\<close> of the array that holds the item.  When \<open>newKey\<close> is not strictly
  smaller than the key at \<open>i\<close>, the heap is returned unchanged.  When it is strictly smaller,
  the key at \<open>i\<close> becomes \<open>newKey\<close> and the element is sifted up from \<open>i\<close>: the result holds
  the elements of the old array with that one key replaced, and it satisfies the order
  invariant when the old array did.
\<close>

theorem updateDistance_decrease_key:
  assumes "n \<in> node ` set h"
  shows "\<exists>i<length h.
           findIndex (\<lambda>e. node e = n) h = Some i \<and> node (h ! i) = n
           \<and> (if d < distance (h ! i)
               then updateDistance h n d = bubbleUp (h[i := \<lparr>distance = d, node = n\<rparr>]) i
                    \<and> mset (updateDistance h n d) = mset (h[i := \<lparr>distance = d, node = n\<rparr>])
                    \<and> (heap_ok h \<longrightarrow> heap_ok (updateDistance h n d))
               else updateDistance h n d = h)"
proof -
  obtain i where i: "findIndex (\<lambda>e. node e = n) h = Some i"
    using assms findIndex_None [of "\<lambda>e. node e = n" h] by (cases "findIndex (\<lambda>e. node e = n) h") auto
  from findIndex_Some [OF i] have il: "i < length h" and ni: "node (h ! i) = n"
    by simp_all
  have upd: "(h ! i)\<lparr>distance := d\<rparr> = \<lparr>distance = d, node = n\<rparr>"
    using ni by (cases "h ! i") simp
  show ?thesis
  proof (cases "d < distance (h ! i)")
    case False
    then have "updateDistance h n d = h"
      using i by (simp add: updateDistance_def)
    with False il i ni show ?thesis by auto
  next
    case True
    have eq: "updateDistance h n d = bubbleUp (h[i := \<lparr>distance = d, node = n\<rparr>]) i"
      using i True upd by (simp add: updateDistance_def)
    have ms: "mset (updateDistance h n d) = mset (h[i := \<lparr>distance = d, node = n\<rparr>])"
      unfolding eq using il by (intro mset_bubbleUp) simp
    have "heap_ok h \<longrightarrow> heap_ok (updateDistance h n d)"
      by (simp add: heap_ok_updateDistance)
    with True il i ni eq ms show ?thesis by auto
  qed
qed

theorem updateDistance_decrease_key_witness:
  "''B'' \<in> node ` set heap_ABC
   \<and> updateDistance heap_ABC ''B'' Inf = heap_ABC
   \<and> mset (updateDistance heap_ABC ''B'' (Fin 2))
       = {#\<lparr>distance = 0, node = ''A''\<rparr>, \<lparr>distance = Fin 2, node = ''B''\<rparr>,
           \<lparr>distance = Fin 7, node = ''C''\<rparr>#}"
proof -
  have b: "''B'' \<in> node ` set heap_ABC" by code_simp
  have h: "heap_ABC = [\<lparr>distance = 0, node = ''A''\<rparr>, \<lparr>distance = Inf, node = ''B''\<rparr>,
      \<lparr>distance = Fin 7, node = ''C''\<rparr>]" by code_simp
  have f: "findIndex (\<lambda>e. node e = ''B'') heap_ABC = Some 1"
    unfolding h by simp
  from updateDistance_decrease_key [OF b, of Inf] f
  have 1: "updateDistance heap_ABC ''B'' Inf = heap_ABC"
    by (auto simp: h)
  from updateDistance_decrease_key [OF b, of "Fin 2"] f
  have "mset (updateDistance heap_ABC ''B'' (Fin 2))
      = mset (heap_ABC[1 := \<lparr>distance = Fin 2, node = ''B''\<rparr>])"
    by (auto simp: h)
  then have 2: "mset (updateDistance heap_ABC ''B'' (Fin 2))
       = {#\<lparr>distance = 0, node = ''A''\<rparr>, \<lparr>distance = Fin 2, node = ''B''\<rparr>,
           \<lparr>distance = Fin 7, node = ''C''\<rparr>#}"
    by (simp add: h)
  from b 1 2 show ?thesis by blast
qed

section \<open>Arithmetic of the numbers\<close>

text \<open>
  Rounding is monotone on the non-negative rationals and leaves a rounded value as it is;
  so adding a non-negative number never makes a non-negative double smaller, and the sum
  is monotone in its first summand.
\<close>

text \<open>
  Some sums as the program computes them: \<open>0.1 + 0.2\<close>, the ties at \<open>2 ^ 53\<close> and at 1,
  which go to the even significand, and the infinities.
\<close>

lemma js_add_examples:
  "js_add (Fin (1 / 10)) (Fin (1 / 5)) = Some (Fin (5404319552844595 / 18014398509481984))"
  "js_add (Fin 9007199254740992) (Fin 1) = Some (Fin 9007199254740992)"
  "js_add (Fin 9007199254740992) (Fin 3) = Some (Fin 9007199254740996)"
  "js_add (Fin 1) (Fin (1 / 9007199254740992)) = Some (Fin 1)"
  "js_add (Fin 1) (Fin (3 / 18014398509481984))
     = Some (Fin (4503599627370497 / 4503599627370496))"
  "js_add (Fin (- 5)) (Fin 3) = Some (Fin (- 2))"
  "js_add Inf (Fin (- 5)) = Some Inf"
  "js_add Inf NegInf = None"
  "js_add (Fin 2) NegInf = Some NegInf"
  by code_simp+

lemma is_double_examples:
  "is_double (Fin 9007199254740996)"
  "\<not> is_double (Fin 9007199254740995)"
  "\<not> is_double (Fin (1 / 10))"
  by code_simp+

lemma pow2_pos [simp]: "0 < pow2 k"
  by (simp add: pow2_def)

lemma pow2_add: "pow2 (a + b) = pow2 a * pow2 b"
  by (simp add: pow2_def power_int_add)

lemma pow2_mono: "a \<le> b \<Longrightarrow> pow2 a \<le> pow2 b"
  by (simp add: pow2_def power_int_increasing)

lemma pow2_strict_mono: "a < b \<Longrightarrow> pow2 a < pow2 b"
  by (simp add: pow2_def power_int_strict_increasing)

lemma pow2_less_cancel: "pow2 a < pow2 b \<Longrightarrow> a < b"
  using pow2_mono [of b a] by (cases "a < b") auto

lemma pow2_le_cancel: "pow2 a \<le> pow2 b \<Longrightarrow> a \<le> b"
  using pow2_strict_mono [of b a] by (cases "a \<le> b") auto

lemma pow2_nat: "pow2 (int n) = 2 ^ n"
  by (simp add: pow2_def)

lemma ilog2_bounds:
  assumes "0 < x"
  shows "pow2 (ilog2 x) \<le> x" and "x < pow2 (ilog2 x + 1)"
proof -
  obtain p q where pq: "quotient_of x = (p, q)" by (cases "quotient_of x")
  have q: "0 < q" using pq by (rule quotient_of_denom_pos)
  have x: "x = of_int p / of_int q" using pq by (rule quotient_of_div)
  have p: "0 < p" using assms q by (simp add: x zero_less_divide_iff)
  define bp where "bp = bitlen p"
  define bq where "bq = bitlen q"
  have bp1: "1 \<le> bp" and bq1: "1 \<le> bq"
    using p q bitlen_eq_zero_iff [of p] bitlen_eq_zero_iff [of q] bitlen_nonneg [of p]
      bitlen_nonneg [of q] by (auto simp: bp_def bq_def)
  from bitlen_bounds [OF p] have "(2::int) ^ nat (bp - 1) \<le> p" "p < 2 ^ nat bp"
    by (simp_all add: bp_def)
  then have "(of_int ((2::int) ^ nat (bp - 1)) :: rat) \<le> of_int p" "(of_int p :: rat) < of_int (2 ^ nat bp)"
    by (simp_all only: of_int_le_iff of_int_less_iff)
  then have P: "pow2 (bp - 1) \<le> of_int p" "of_int p < pow2 bp"
    using bp1 by (simp_all add: pow2_def power_int_def)
  from bitlen_bounds [OF q] have "(2::int) ^ nat (bq - 1) \<le> q" "q < 2 ^ nat bq"
    by (simp_all add: bq_def)
  then have "(of_int ((2::int) ^ nat (bq - 1)) :: rat) \<le> of_int q" "(of_int q :: rat) < of_int (2 ^ nat bq)"
    by (simp_all only: of_int_le_iff of_int_less_iff)
  then have Q: "pow2 (bq - 1) \<le> of_int q" "of_int q < pow2 bq"
    using bq1 by (simp_all add: pow2_def power_int_def)
  have qpos: "(0::rat) < of_int q" using q by simp
  have up: "x < pow2 (bp - bq + 1)"
  proof -
    have "of_int p < pow2 (bp - bq + 1) * pow2 (bq - 1)"
      using P(2) pow2_add [of "bp - bq + 1" "bq - 1"] by simp
    also have "\<dots> \<le> pow2 (bp - bq + 1) * of_int q"
      using Q(1) by (simp add: mult_left_mono less_imp_le)
    finally show ?thesis using qpos by (simp add: x pos_divide_less_eq)
  qed
  have lo: "pow2 (bp - bq - 1) < x"
  proof -
    have "pow2 (bp - bq - 1) * of_int q < pow2 (bp - bq - 1) * pow2 bq"
      using Q(2) by (simp add: mult_strict_left_mono)
    also have "\<dots> = pow2 (bp - 1)"
      using pow2_add [of "bp - bq - 1" bq] by simp
    also have "\<dots> \<le> of_int p" by (rule P(1))
    finally show ?thesis using qpos by (simp add: x pos_less_divide_eq)
  qed
  have il: "ilog2 x = (if pow2 (bp - bq) \<le> x then bp - bq else bp - bq - 1)"
    by (simp add: ilog2_def pq bp_def bq_def Let_def)
  show "pow2 (ilog2 x) \<le> x"
    using lo by (simp add: il less_imp_le)
  show "x < pow2 (ilog2 x + 1)"
    using up by (simp add: il not_le)
qed

lemma ulp_exp_ge: "- 1074 \<le> ulp_exp x"
  by (simp add: ulp_exp_def)

lemma ulp_exp_upper: "\<bar>x\<bar> < pow2 (ulp_exp x + 53)"
proof (cases "x = 0")
  case True
  then show ?thesis by simp
next
  case False
  then have "\<bar>x\<bar> < pow2 (ilog2 \<bar>x\<bar> + 1)" by (simp add: ilog2_bounds)
  also have "\<dots> \<le> pow2 (ulp_exp x + 53)"
    using False by (intro pow2_mono) (simp add: ulp_exp_def)
  finally show ?thesis .
qed

lemma ulp_exp_lower: "- 1074 < ulp_exp x \<Longrightarrow> pow2 (ulp_exp x + 52) \<le> \<bar>x\<bar>"
proof -
  assume a: "- 1074 < ulp_exp x"
  then have nz: "x \<noteq> 0" and e: "ulp_exp x = ilog2 \<bar>x\<bar> - 52"
    by (auto simp: ulp_exp_def split: if_splits)
  show ?thesis using nz ilog2_bounds(1) [of "\<bar>x\<bar>"] by (simp add: e)
qed

lemma ulp_exp_least:
  assumes "- 1074 \<le> e" and "\<bar>x\<bar> < pow2 (e + 53)"
  shows "ulp_exp x \<le> e"
proof (rule ccontr)
  assume "\<not> ulp_exp x \<le> e"
  then have gt: "e < ulp_exp x" by simp
  then have "pow2 (ulp_exp x + 52) \<le> \<bar>x\<bar>"
    using assms(1) by (intro ulp_exp_lower) simp
  then have "pow2 (ulp_exp x + 52) < pow2 (e + 53)"
    using assms(2) by simp
  then have "ulp_exp x + 52 < e + 53" by (rule pow2_less_cancel)
  then show False using gt by simp
qed

lemma ulp_exp_mono: "\<bar>x\<bar> \<le> \<bar>y\<bar> \<Longrightarrow> ulp_exp x \<le> ulp_exp y"
  using ulp_exp_upper [of y] by (intro ulp_exp_least ulp_exp_ge) simp

lemma round_half_even_of_int [simp]: "round_half_even (of_int n) = n"
  by (simp add: round_half_even_def)

lemma round_half_even_mono: "y \<le> z \<Longrightarrow> round_half_even y \<le> round_half_even z"
proof -
  assume yz: "y \<le> z"
  then have fl: "\<lfloor>y\<rfloor> \<le> \<lfloor>z\<rfloor>" by (rule floor_mono)
  have ry: "\<lfloor>y\<rfloor> \<le> round_half_even y" "round_half_even y \<le> \<lfloor>y\<rfloor> + 1"
    and rz: "\<lfloor>z\<rfloor> \<le> round_half_even z"
    by (simp_all add: round_half_even_def Let_def)
  show ?thesis
  proof (cases "\<lfloor>y\<rfloor> = \<lfloor>z\<rfloor>")
    case False
    then have "\<lfloor>y\<rfloor> + 1 \<le> \<lfloor>z\<rfloor>" using fl by simp
    then show ?thesis using ry rz by simp
  next
    case True
    then have "y - of_int \<lfloor>y\<rfloor> \<le> z - of_int \<lfloor>z\<rfloor>" using yz by simp
    then show ?thesis using True by (auto simp: round_half_even_def Let_def)
  qed
qed

lemma pow2_int: "0 \<le> k \<Longrightarrow> pow2 k = of_int (2 ^ nat k)"
  by (simp add: pow2_def power_int_def)

lemma round_half_even_pow2: "0 \<le> k \<Longrightarrow> of_int (round_half_even (pow2 k)) = pow2 k"
  by (simp only: pow2_int round_half_even_of_int)

lemma round_half_even_0 [simp]: "round_half_even 0 = 0"
  using round_half_even_of_int [of 0] by simp

lemma round_half_even_minus: "round_half_even (- y) = - round_half_even y"
proof (cases "y = of_int \<lfloor>y\<rfloor>")
  case True
  then obtain n where "y = of_int n" by blast
  then show ?thesis using round_half_even_of_int [of "- n"] by simp
next
  case False
  have "of_int \<lfloor>y\<rfloor> \<le> y" by (rule of_int_floor_le)
  with False have lt: "of_int \<lfloor>y\<rfloor> < y" by (metis order.not_eq_order_implies_strict)
  have up: "y < of_int \<lfloor>y\<rfloor> + 1" by linarith
  have fm: "\<lfloor>- y\<rfloor> = - \<lfloor>y\<rfloor> - 1"
    using lt up by (intro floor_unique) simp_all
  show ?thesis
    unfolding round_half_even_def Let_def fm
    by (auto simp: algebra_simps)
qed

lemma nearest64_0 [simp]: "nearest64 0 = 0"
  by (simp add: nearest64_def)

lemma scaled_bounds:
  "- pow2 53 < x / pow2 (ulp_exp x)" "x / pow2 (ulp_exp x) < pow2 53"
proof -
  have a: "\<bar>x\<bar> < pow2 53 * pow2 (ulp_exp x)"
    using ulp_exp_upper [of x] pow2_add [of 53 "ulp_exp x"] by (simp add: add.commute)
  have "x \<le> \<bar>x\<bar>" by simp
  then have "x < pow2 53 * pow2 (ulp_exp x)" using a by (rule le_less_trans)
  then show "x / pow2 (ulp_exp x) < pow2 53"
    by (simp add: pos_divide_less_eq)
  have "- x \<le> \<bar>x\<bar>" by simp
  then have "- x < pow2 53 * pow2 (ulp_exp x)" using a by (rule le_less_trans)
  then have "- (pow2 53 * pow2 (ulp_exp x)) < x" by simp
  then have "(- pow2 53) * pow2 (ulp_exp x) < x" by simp
  then show "- pow2 53 < x / pow2 (ulp_exp x)"
    by (simp only: pos_less_divide_eq pow2_pos)
qed

lemma mantissa_bounds:
  "- pow2 53 \<le> of_int (round_half_even (x / pow2 (ulp_exp x)))"
  "of_int (round_half_even (x / pow2 (ulp_exp x))) \<le> pow2 53"
proof -
  have "round_half_even (x / pow2 (ulp_exp x)) \<le> round_half_even (pow2 53)"
    using scaled_bounds(2) [of x] by (intro round_half_even_mono) simp
  then have "(of_int (round_half_even (x / pow2 (ulp_exp x))) :: rat)
      \<le> of_int (round_half_even (pow2 53))"
    by (simp only: of_int_le_iff)
  then show "of_int (round_half_even (x / pow2 (ulp_exp x))) \<le> pow2 53"
    by (simp add: round_half_even_pow2)
  have "round_half_even (- pow2 53) \<le> round_half_even (x / pow2 (ulp_exp x))"
    using scaled_bounds(1) [of x] by (intro round_half_even_mono) simp
  then have "(of_int (round_half_even (- pow2 53)) :: rat)
      \<le> of_int (round_half_even (x / pow2 (ulp_exp x)))"
    by (simp only: of_int_le_iff)
  then show "- pow2 53 \<le> of_int (round_half_even (x / pow2 (ulp_exp x)))"
    by (simp add: round_half_even_minus round_half_even_pow2)
qed

lemma nearest64_mono:
  assumes "0 \<le> x" and "x \<le> y"
  shows "nearest64 x \<le> nearest64 y"
proof -
  define ex where "ex = ulp_exp x"
  define ey where "ey = ulp_exp y"
  define mx where "mx = round_half_even (x / pow2 ex)"
  define my where "my = round_half_even (y / pow2 ey)"
  have le: "ex \<le> ey"
    unfolding ex_def ey_def using assms by (intro ulp_exp_mono) simp
  have nx: "nearest64 x = of_int mx * pow2 ex" and ny: "nearest64 y = of_int my * pow2 ey"
    by (simp_all add: nearest64_def mx_def my_def ex_def ey_def)
  show ?thesis
  proof (cases "ex = ey")
    case True
    have "x / pow2 ex \<le> y / pow2 ex"
      using assms(2) by (simp add: divide_right_mono less_imp_le)
    then have "mx \<le> my"
      unfolding mx_def my_def True [symmetric] by (rule round_half_even_mono)
    then have "(of_int mx :: rat) \<le> of_int my" by simp
    then show ?thesis
      unfolding nx ny True by (simp add: mult_right_mono less_imp_le)
  next
    case False
    then have lt: "ex < ey" using le by simp
    have "(of_int mx :: rat) \<le> pow2 53"
      unfolding mx_def ex_def by (rule mantissa_bounds(2))
    then have "of_int mx * pow2 ex \<le> pow2 53 * pow2 ex"
      by (simp add: mult_right_mono less_imp_le)
    also have "\<dots> = pow2 (ex + 53)"
      using pow2_add [of 53 ex] by (simp add: add.commute)
    also have "\<dots> \<le> pow2 (ey + 52)"
      using lt by (intro pow2_mono) simp
    finally have up: "nearest64 x \<le> pow2 (ey + 52)"
      by (simp add: nx)
    have "- 1074 < ey"
      using lt ulp_exp_ge [of x] by (simp add: ex_def)
    then have "pow2 (ey + 52) \<le> \<bar>y\<bar>"
      unfolding ey_def by (rule ulp_exp_lower)
    then have "pow2 52 * pow2 ey \<le> y"
      using assms pow2_add [of 52 ey] by (simp add: add.commute)
    then have "pow2 52 \<le> y / pow2 ey"
      by (simp only: pos_le_divide_eq pow2_pos)
    then have "round_half_even (pow2 52) \<le> my"
      unfolding my_def by (rule round_half_even_mono)
    then have "(of_int (round_half_even (pow2 52)) :: rat) \<le> of_int my"
      by (simp only: of_int_le_iff)
    then have "pow2 52 \<le> of_int my"
      by (simp add: round_half_even_pow2)
    then have "pow2 52 * pow2 ey \<le> of_int my * pow2 ey"
      by (simp add: mult_right_mono less_imp_le)
    then have "pow2 (ey + 52) \<le> nearest64 y"
      using pow2_add [of 52 ey] by (simp add: ny add.commute)
    with up show ?thesis by (rule order_trans)
  qed
qed

lemma nearest64_nonneg: "0 \<le> x \<Longrightarrow> 0 \<le> nearest64 x"
  using nearest64_mono [of 0 x] by simp

lemma huge_pos: "0 < huge"
  by (simp add: huge_def)

lemma round64_mono:
  assumes "0 \<le> x" and "x \<le> y"
  shows "round64 x \<le> round64 y"
proof -
  have "nearest64 x \<le> nearest64 y" using assms by (rule nearest64_mono)
  moreover have "0 \<le> nearest64 x" "0 \<le> nearest64 y"
    using assms by (simp_all add: nearest64_nonneg)
  ultimately show ?thesis
    using huge_pos by (auto simp: round64_def Let_def)
qed

lemma round64_0 [simp]: "round64 0 = Fin 0"
  using huge_pos by (simp add: round64_def)

lemma nearest64_multiple:
  assumes "r = of_int n * pow2 (ulp_exp r)"
  shows "nearest64 r = r"
proof -
  have "r / pow2 (ulp_exp r) = of_int n"
    using assms pow2_pos [of "ulp_exp r"] by (metis less_irrefl nonzero_mult_div_cancel_right)
  then show ?thesis
    using assms by (simp add: nearest64_def)
qed

lemma nearest64_idem: "nearest64 (nearest64 x) = nearest64 x"
proof -
  define e where "e = ulp_exp x"
  define m where "m = round_half_even (x / pow2 e)"
  define r where "r = nearest64 x"
  define e' where "e' = ulp_exp r"
  have r: "r = of_int m * pow2 e"
    by (simp add: r_def nearest64_def m_def e_def)
  have mb: "- pow2 53 \<le> of_int m" "of_int m \<le> pow2 53"
    unfolding m_def e_def by (rule mantissa_bounds)+
  then have am: "\<bar>of_int m :: rat\<bar> \<le> pow2 53" by (simp add: abs_le_iff)
  have ar: "\<bar>r\<bar> = \<bar>of_int m\<bar> * pow2 e"
    by (simp add: r abs_mult abs_of_pos)
  have "\<bar>r\<bar> \<le> pow2 53 * pow2 e"
    unfolding ar using am by (simp add: mult_right_mono less_imp_le)
  also have "\<dots> = pow2 (e + 53)"
    using pow2_add [of 53 e] by (simp add: add.commute)
  also have "\<dots> < pow2 (e + 1 + 53)"
    by (intro pow2_strict_mono) simp
  finally have "\<bar>r\<bar> < pow2 (e + 1 + 53)" .
  moreover have ege: "- 1074 \<le> e" by (simp add: e_def ulp_exp_ge)
  ultimately have le: "e' \<le> e + 1"
    unfolding e'_def by (intro ulp_exp_least) simp_all
  have "\<exists>n. r = of_int n * pow2 e'"
  proof (cases "e' \<le> e")
    case True
    have "pow2 e = pow2 (e - e') * pow2 e'"
      using pow2_add [of "e - e'" e'] by simp
    also have "\<dots> = of_int (2 ^ nat (e - e')) * pow2 e'"
      using True by (simp add: pow2_int)
    finally have "r = of_int (m * 2 ^ nat (e - e')) * pow2 e'"
      by (simp add: r)
    then show ?thesis by blast
  next
    case False
    then have e'eq: "e' = e + 1" using le by simp
    then have "- 1074 < e'" using ege by simp
    then have "pow2 (e' + 52) \<le> \<bar>r\<bar>"
      unfolding e'_def by (rule ulp_exp_lower)
    then have "pow2 53 * pow2 e \<le> \<bar>of_int m\<bar> * pow2 e"
      using pow2_add [of 53 e] by (simp add: e'eq ar add.commute)
    then have "pow2 53 \<le> \<bar>of_int m :: rat\<bar>"
      by (simp only: mult_le_cancel_right_pos pow2_pos)
    with am have eq: "\<bar>of_int m :: rat\<bar> = pow2 53" by simp
    have p: "pow2 53 * pow2 e = pow2 52 * pow2 e'"
      using pow2_add [of 53 e] pow2_add [of 52 e'] by (simp add: e'eq add.commute)
    have p52: "pow2 52 = of_int (2 ^ 52)"
      using pow2_int [of 52] by simp
    show ?thesis
    proof (cases "0 \<le> (of_int m :: rat)")
      case True
      then have "(of_int m :: rat) = pow2 53" using eq by simp
      then have "r = of_int (2 ^ 52) * pow2 e'" by (simp only: r p p52)
      then show ?thesis by blast
    next
      case False
      then have "(of_int m :: rat) = - pow2 53" using eq by simp
      then have "r = - (pow2 53 * pow2 e)" by (simp add: r)
      then have "r = of_int (- (2 ^ 52)) * pow2 e'" by (simp only: p p52 of_int_minus mult_minus_left)
      then show ?thesis by blast
    qed
  qed
  then obtain n where "r = of_int n * pow2 (ulp_exp r)"
    unfolding e'_def by blast
  then have "nearest64 r = r" by (rule nearest64_multiple)
  then show ?thesis by (simp add: r_def)
qed

lemma round64_idem: "round64 x = Fin r \<Longrightarrow> round64 r = Fin r"
proof -
  assume a: "round64 x = Fin r"
  then have r: "r = nearest64 x" and b: "\<not> huge \<le> r" "\<not> r \<le> - huge"
    by (auto simp: round64_def Let_def split: if_splits)
  have "nearest64 r = r" by (simp add: r nearest64_idem)
  then show ?thesis using b by (simp add: round64_def Let_def)
qed

lemma num_le_Inf [simp]: "(a :: num) \<le> Inf"
  by (cases a) simp_all

lemma round64_is_double: "is_double (round64 x)"
  by (cases "round64 x") (simp_all add: round64_idem)

lemma js_add_is_double: "js_add a b = Some r \<Longrightarrow> is_double r"
  by (cases a; cases b) (auto simp: round64_is_double)

lemma js_add_defined: "0 \<le> a \<Longrightarrow> 0 \<le> w \<Longrightarrow> \<exists>r. js_add a w = Some r"
  by (cases a; cases w) (auto simp: zero_num_def)

lemma js_add_mono:
  assumes "0 \<le> a" and "a \<le> b" and "0 \<le> w"
    and "js_add a w = Some ra" and "js_add b w = Some rb"
  shows "ra \<le> rb"
proof (cases w)
  case NegInf
  then show ?thesis using assms(3) by (simp add: zero_num_def)
next
  case Inf
  then show ?thesis using assms by (cases a; cases b) auto
next
  case (Fin y)
  then have y: "0 \<le> y" using assms(3) by (simp add: zero_num_def)
  show ?thesis
  proof (cases b)
    case NegInf
    then show ?thesis using assms by (cases a) (auto simp: zero_num_def)
  next
    case Inf
    then show ?thesis using assms Fin by auto
  next
    case bf: (Fin xb)
    then obtain xa where af: "a = Fin xa" "0 \<le> xa" "xa \<le> xb"
      using assms(1,2) by (cases a) (auto simp: zero_num_def)
    have "round64 (xa + y) \<le> round64 (xb + y)"
      using af y by (intro round64_mono) simp_all
    then show ?thesis using assms(4,5) af bf Fin by simp
  qed
qed

lemma js_add_increasing:
  assumes "is_double a" and "0 \<le> a" and "0 \<le> w" and "js_add a w = Some r"
  shows "a \<le> r"
proof (cases a)
  case NegInf
  then show ?thesis by simp
next
  case Inf
  then show ?thesis using assms by (cases w) (auto simp: zero_num_def)
next
  case af: (Fin x)
  then have x: "0 \<le> x" "round64 x = Fin x"
    using assms(1,2) by (simp_all add: zero_num_def)
  show ?thesis
  proof (cases w)
    case NegInf
    then show ?thesis using assms(3) by (simp add: zero_num_def)
  next
    case Inf
    then show ?thesis using assms(4) af by auto
  next
    case (Fin y)
    then have "0 \<le> y" using assms(3) by (simp add: zero_num_def)
    then have "round64 x \<le> round64 (x + y)"
      using x(1) by (intro round64_mono) simp_all
    then show ?thesis using assms(4) af Fin x(2) by simp
  qed
qed

lemma is_double_0: "is_double 0"
  by (simp add: zero_num_def)

section \<open>What the heap operations do to the contents\<close>

lemma extractMin_Inr:
  assumes "extractMin h = Inr (c, h')"
  shows "h \<noteq> [] \<and> c = node (h ! 0) \<and> mset h' = mset (remove1 (h ! 0) h)"
proof -
  obtain m t where h: "h = m # t"
    using assms by (cases h) (auto simp: extractMin_def)
  show ?thesis
  proof (cases "length (butlast h) > 0")
    case False
    then have "t = []" using h by (cases t) auto
    then show ?thesis using assms h by (simp add: extractMin_def Let_def)
  next
    case True
    then have t: "t \<noteq> []" using h by auto
    have c: "c = node m" and h': "h' = bubbleDown ((butlast h)[0 := last h]) 0"
      using assms True h by (auto simp: extractMin_def Let_def)
    have "mset h' = mset ((butlast h)[0 := last h])"
      unfolding h' by (rule mset_bubbleDown)
    also have "\<dots> = mset (last t # butlast t)"
      using h t by simp
    also have "\<dots> = mset (butlast t @ [last t])"
      by simp
    also have "\<dots> = mset t"
      using t by simp
    finally show ?thesis using h c by simp
  qed
qed

lemma nodes_distinct_nth:
  "distinct (map node h) \<Longrightarrow> i < length h \<Longrightarrow> j < length h \<Longrightarrow> node (h ! i) = node (h ! j)
   \<Longrightarrow> i = j"
  using nth_eq_iff_index_eq [of "map node h" i j] by simp

lemma updateDistance_found:
  assumes dist: "distinct (map node h)" and e: "e \<in> set h" and n: "node e = n"
    and d: "d < distance e"
  shows "mset (updateDistance h n d) = mset (\<lparr>distance = d, node = n\<rparr> # remove1 e h)"
proof -
  obtain j where j: "j < length h" "h ! j = e"
    using e by (auto simp: in_set_conv_nth)
  obtain i where i: "findIndex (\<lambda>x. node x = n) h = Some i"
    using e n findIndex_None [of "\<lambda>x. node x = n" h]
    by (cases "findIndex (\<lambda>x. node x = n) h") auto
  from findIndex_Some [OF i] have il: "i < length h" and ni: "node (h ! i) = n"
    by simp_all
  have "i = j"
    using dist il j ni n by (intro nodes_distinct_nth [of h]) simp_all
  then have hi: "h ! i = e" using j by simp
  have upd: "(h ! i)\<lparr>distance := d\<rparr> = \<lparr>distance = d, node = n\<rparr>"
    using ni by (cases "h ! i") simp
  have "updateDistance h n d = bubbleUp (h[i := \<lparr>distance = d, node = n\<rparr>]) i"
    using i d hi upd by (simp add: updateDistance_def)
  then have "mset (updateDistance h n d) = mset (h[i := \<lparr>distance = d, node = n\<rparr>])"
    using il by (simp add: mset_bubbleUp)
  also have "\<dots> = add_mset \<lparr>distance = d, node = n\<rparr> (mset h - {#h ! i#})"
    using il by (rule mset_update)
  finally show ?thesis using hi by simp
qed

lemma mset_insert_heap: "mset (insert_heap h d n) = add_mset \<lparr>distance = d, node = n\<rparr> (mset h)"
  unfolding insert_heap_def by (simp add: mset_bubbleUp)

lemma mset_eq_nodes:
  assumes "mset h' = mset k"
  shows "set h' = set k" and "distinct (map node h') \<longleftrightarrow> distinct (map node k)"
proof -
  show "set h' = set k" using assms by (rule mset_eq_setD)
  have "mset (map node h') = mset (map node k)" using assms by simp
  then show "distinct (map node h') \<longleftrightarrow> distinct (map node k)"
    by (rule mset_eq_imp_distinct_iff)
qed

lemma distinct_nodes_remove1:
  assumes "distinct (map node h)" and "e \<in> set h"
  shows "distinct (map node (remove1 e h))" and "set (remove1 e h) = set h - {e}"
    and "node e \<notin> node ` set (remove1 e h)"
proof -
  have dh: "distinct h" using assms(1) by (rule distinct_map [THEN iffD1, THEN conjunct1])
  have inj: "inj_on node (set h)" using assms(1) by (simp add: distinct_map)
  show s: "set (remove1 e h) = set h - {e}" using dh by simp
  show "distinct (map node (remove1 e h))"
    using dh inj s by (auto simp: distinct_map intro: inj_on_subset)
  show "node e \<notin> node ` set (remove1 e h)"
    using inj assms(2) s by (auto dest: inj_onD)
qed

section \<open>Invariants of the search\<close>

definition queued :: "dijkstra_state \<Rightarrow> key set" where
  "queued s = node ` set (heap s)"

definition heap_sync :: "dijkstra_state \<Rightarrow> bool" where
  "heap_sync s =
     (heap_ok (heap s) \<and> distinct (map node (heap s))
      \<and> (\<forall>x \<in> set (heap s). distances s (node x) = Some (distance x)))"

definition dist_ok :: "dijkstra_state \<Rightarrow> bool" where
  "dist_ok s = (\<forall>v d. distances s v = Some d \<longrightarrow> 0 \<le> d \<and> is_double d)"

definition relaxed_from :: "'v graph \<Rightarrow> dijkstra_state \<Rightarrow> key \<Rightarrow> bool" where
  "relaxed_from g s u =
     (\<forall>v e du. distances s u = Some du \<longrightarrow> get_edge g u v = Some e \<longrightarrow>
        (\<exists>r dv. js_add du (weight e) = Some r \<and> distances s v = Some dv \<and> dv \<le> r))"

definition rinv :: "'v graph \<Rightarrow> key \<Rightarrow> key \<Rightarrow> num \<Rightarrow> dijkstra_state \<Rightarrow> bool" where
  "rinv g start c dc s =
     (heap_sync s
      \<and> dist_ok s
      \<and> dom (distances s) = set (Map_keys (nodes g))
      \<and> (\<exists>d0. distances s start = Some d0 \<and> d0 \<le> 0)
      \<and> (\<forall>u. u \<notin> queued s \<longrightarrow> u \<noteq> c \<longrightarrow> relaxed_from g s u)
      \<and> (\<forall>u du. distances s u = Some du \<longrightarrow> u \<notin> queued s \<longrightarrow> du \<le> dc)
      \<and> (\<forall>x \<in> set (heap s). dc \<le> distance x)
      \<and> distances s c = Some dc \<and> c \<notin> queued s)"

lemma relax_unchanged:
  "distances s c = Some dc \<Longrightarrow> js_add dc (weight e) = Some alt \<Longrightarrow>
   distances s t = None \<or> (\<exists>dt. distances s t = Some dt \<and> \<not> alt < dt) \<Longrightarrow>
   relax c (t, e) s = s"
  by (auto simp: relax_def)

lemma relax_changed:
  "distances s c = Some dc \<Longrightarrow> js_add dc (weight e) = Some alt \<Longrightarrow>
   distances s t = Some dt \<Longrightarrow> alt < dt \<Longrightarrow>
   relax c (t, e) s =
     s\<lparr>distances := (distances s)(t \<mapsto> alt),
       previous := (previous s)(t \<mapsto> Some c),
       heap := updateDistance (heap s) t alt\<rparr>"
  by (simp add: relax_def)

lemma rinv_relax:
  assumes inv: "rinv g start c dc s" and w: "0 \<le> weight e"
  shows "\<exists>alt. js_add dc (weight e) = Some alt
    \<and> rinv g start c dc (relax c (t, e) s)
    \<and> (\<forall>v dv. distances s v = Some dv \<longrightarrow>
          (\<exists>dv'. distances (relax c (t, e) s) v = Some dv' \<and> dv' \<le> dv))
    \<and> (t \<in> dom (distances s) \<longrightarrow>
          (\<exists>dt. distances (relax c (t, e) s) t = Some dt \<and> dt \<le> alt))"
proof -
  have dc: "distances s c = Some dc" and cq: "c \<notin> queued s"
    using inv by (simp_all add: rinv_def)
  have dok: "\<And>v d. distances s v = Some d \<Longrightarrow> 0 \<le> d \<and> is_double d"
    using inv by (simp add: rinv_def dist_ok_def)
  have dc0: "0 \<le> dc" and dcd: "is_double dc"
    using dok [OF dc] by simp_all
  obtain alt where alt: "js_add dc (weight e) = Some alt"
    using js_add_defined [OF dc0 w] by blast
  have alt_ge: "dc \<le> alt"
    using dcd dc0 w alt by (rule js_add_increasing)
  have alt0: "0 \<le> alt"
    using dc0 alt_ge by (rule order_trans)
  have altd: "is_double alt"
    using alt by (rule js_add_is_double)
  show ?thesis
  proof (cases "\<exists>dt. distances s t = Some dt \<and> alt < dt")
    case False
    then have "relax c (t, e) s = s"
      using dc alt by (intro relax_unchanged [of s c dc e alt]) auto
    moreover have "t \<in> dom (distances s) \<longrightarrow> (\<exists>dt. distances s t = Some dt \<and> dt \<le> alt)"
      using False by (auto simp: not_less)
    ultimately show ?thesis using inv alt by auto
  next
    case True
    then obtain dt where dt: "distances s t = Some dt" "alt < dt"
      by blast
    define s' where "s' = s\<lparr>distances := (distances s)(t \<mapsto> alt),
       previous := (previous s)(t \<mapsto> Some c),
       heap := updateDistance (heap s) t alt\<rparr>"
    have rel: "relax c (t, e) s = s'"
      unfolding s'_def using dc alt dt by (rule relax_changed)
    have sync: "heap_ok (heap s)" "distinct (map node (heap s))"
      "\<And>x. x \<in> set (heap s) \<Longrightarrow> distances s (node x) = Some (distance x)"
      using inv by (simp_all add: rinv_def heap_sync_def)
    have tq: "t \<in> queued s"
    proof (rule ccontr)
      assume "t \<notin> queued s"
      then have "dt \<le> dc" using inv dt by (simp add: rinv_def)
      then show False using dt(2) alt_ge by simp
    qed
    then obtain x where x: "x \<in> set (heap s)" "node x = t"
      by (auto simp: queued_def)
    then have dx: "distance x = dt" using sync(3) [of x] dt by simp
    let ?e' = "\<lparr>distance = alt, node = t\<rparr>"
    have ms: "mset (heap s') = mset (?e' # remove1 x (heap s))"
      unfolding s'_def using sync(2) x dt(2) dx by (simp add: updateDistance_found)
    have set': "set (heap s') = insert ?e' (set (heap s) - {x})"
      using mset_eq_nodes(1) [OF ms] distinct_nodes_remove1(2) [OF sync(2) x(1)] by simp
    have tn: "t \<notin> node ` (set (heap s) - {x})"
      using distinct_nodes_remove1 [OF sync(2) x(1)] x(2) by simp
    have q': "queued s' = queued s"
      unfolding queued_def set' using x by auto
    have D': "distances s' = (distances s)(t \<mapsto> alt)"
      by (simp add: s'_def)
    have hs: "heap_sync s'"
      unfolding heap_sync_def
    proof (intro conjI ballI)
      show "heap_ok (heap s')"
        unfolding s'_def using sync(1) by (simp add: heap_ok_updateDistance)
      have "distinct (map node (?e' # remove1 x (heap s)))"
        using distinct_nodes_remove1 [OF sync(2) x(1)] x(2) by simp
      then show "distinct (map node (heap s'))"
        using mset_eq_nodes(2) [OF ms] by simp
      fix y assume "y \<in> set (heap s')"
      then consider "y = ?e'" | "y \<in> set (heap s) - {x}"
        unfolding set' by blast
      then show "distances s' (node y) = Some (distance y)"
      proof cases
        case 1
        then show ?thesis by (simp add: D')
      next
        case 2
        then have "node y \<noteq> t" using tn by auto
        then show ?thesis using 2 sync(3) [of y] by (simp add: D')
      qed
    qed
    have dec: "\<exists>dv'. distances s' v = Some dv' \<and> dv' \<le> dv" if "distances s v = Some dv" for v dv
      using that dt by (auto simp: D')
    have "rinv g start c dc s'"
      unfolding rinv_def
    proof (intro conjI allI impI ballI)
      show "heap_sync s'" by (rule hs)
      show "dist_ok s'"
        unfolding dist_ok_def using dok alt0 altd by (auto simp: D')
      show "dom (distances s') = set (Map_keys (nodes g))"
        using inv dt(1) by (auto simp: rinv_def D')
      show "\<exists>d0. distances s' start = Some d0 \<and> d0 \<le> 0"
      proof -
        obtain d0 where "distances s start = Some d0" "d0 \<le> 0"
          using inv by (auto simp: rinv_def)
        then show ?thesis using dec [of start d0] by (meson order_trans)
      qed
      show "distances s' c = Some dc"
        using dc cq tq by (auto simp: D')
      show "c \<notin> queued s'"
        using cq by (simp add: q')
    next
      fix u assume u: "u \<notin> queued s'" "u \<noteq> c"
      then have ut: "u \<noteq> t" using tq by (auto simp: q')
      have old: "relaxed_from g s u"
        using inv u by (simp add: rinv_def q')
      show "relaxed_from g s' u"
        unfolding relaxed_from_def
      proof (intro allI impI)
        fix v e' du assume a: "distances s' u = Some du" "get_edge g u v = Some e'"
        then have "distances s u = Some du" using ut by (simp add: D')
        then obtain r dv where dv: "js_add du (weight e') = Some r"
          "distances s v = Some dv" "dv \<le> r"
          using old a(2) unfolding relaxed_from_def by blast
        from dec [OF dv(2)] dv(1,3)
        show "\<exists>r dv. js_add du (weight e') = Some r \<and> distances s' v = Some dv \<and> dv \<le> r"
          by (meson order_trans)
      qed
    next
      fix u du assume u: "distances s' u = Some du" "u \<notin> queued s'"
      then have "u \<noteq> t" using tq by (auto simp: q')
      then show "du \<le> dc" using inv u by (simp add: rinv_def q' D')
    next
      fix y assume "y \<in> set (heap s')"
      then consider "y = ?e'" | "y \<in> set (heap s)"
        unfolding set' by blast
      then show "dc \<le> distance y"
      proof cases
        case 1
        then show ?thesis using alt_ge by simp
      next
        case 2
        then show ?thesis using inv by (simp add: rinv_def)
      qed
    qed
    moreover have "\<exists>d. distances s' t = Some d \<and> d \<le> alt"
      by (simp add: D')
    ultimately show ?thesis
      using dec alt unfolding rel by blast
  qed
qed

lemma rinv_fold_relax:
  assumes "rinv g start c dc s" and "\<forall>(t, e) \<in> set es. 0 \<le> weight e"
  shows "rinv g start c dc (fold (relax c) es s)
    \<and> (\<forall>v dv. distances s v = Some dv \<longrightarrow>
          (\<exists>dv'. distances (fold (relax c) es s) v = Some dv' \<and> dv' \<le> dv))
    \<and> (\<forall>(t, e) \<in> set es. t \<in> dom (distances s) \<longrightarrow>
          (\<exists>alt dt. js_add dc (weight e) = Some alt
             \<and> distances (fold (relax c) es s) t = Some dt \<and> dt \<le> alt))"
  using assms
proof (induction es arbitrary: s)
  case Nil
  then show ?case by simp
next
  case (Cons te es)
  obtain t e where te: "te = (t, e)" by (cases te)
  define s1 where "s1 = relax c (t, e) s"
  have w: "0 \<le> weight e" and ws: "\<forall>(t, e) \<in> set es. 0 \<le> weight e"
    using Cons.prems(2) te by auto
  from rinv_relax [OF Cons.prems(1) w, of t]
  obtain alt where alt: "js_add dc (weight e) = Some alt"
    and inv1: "rinv g start c dc s1"
    and dec1: "\<And>v dv. distances s v = Some dv \<Longrightarrow> \<exists>dv'. distances s1 v = Some dv' \<and> dv' \<le> dv"
    and t1: "t \<in> dom (distances s) \<Longrightarrow> \<exists>dt. distances s1 t = Some dt \<and> dt \<le> alt"
    unfolding s1_def by blast
  from Cons.IH [OF inv1 ws]
  have inv2: "rinv g start c dc (fold (relax c) es s1)"
    and dec2: "\<And>v dv. distances s1 v = Some dv \<Longrightarrow>
      \<exists>dv'. distances (fold (relax c) es s1) v = Some dv' \<and> dv' \<le> dv"
    and rest: "\<forall>(t, e) \<in> set es. t \<in> dom (distances s1) \<longrightarrow>
      (\<exists>alt dt. js_add dc (weight e) = Some alt
         \<and> distances (fold (relax c) es s1) t = Some dt \<and> dt \<le> alt)"
    by blast+
  have dom1: "dom (distances s1) = dom (distances s)"
    using inv1 Cons.prems(1) by (simp add: rinv_def)
  have f: "fold (relax c) (te # es) s = fold (relax c) es s1"
    by (simp add: te s1_def)
  have dec: "\<exists>dv'. distances (fold (relax c) es s1) v = Some dv' \<and> dv' \<le> dv"
    if dv: "distances s v = Some dv" for v dv
  proof -
    obtain d1 where d1: "distances s1 v = Some d1" "d1 \<le> dv"
      using dec1 [OF dv] by blast
    obtain d2 where "distances (fold (relax c) es s1) v = Some d2" "d2 \<le> d1"
      using dec2 [OF d1(1)] by blast
    then show ?thesis using d1(2) by (meson order_trans)
  qed
  have first: "\<exists>alt dt. js_add dc (weight e) = Some alt
      \<and> distances (fold (relax c) es s1) t = Some dt \<and> dt \<le> alt"
    if td: "t \<in> dom (distances s)"
  proof -
    obtain d1 where d1: "distances s1 t = Some d1" "d1 \<le> alt"
      using t1 [OF td] by blast
    obtain d2 where "distances (fold (relax c) es s1) t = Some d2" "d2 \<le> d1"
      using dec2 [OF d1(1)] by blast
    then show ?thesis using d1(2) alt by (meson order_trans)
  qed
  show ?case
    unfolding f using inv2 dec first rest by (auto simp: te dom1)
qed

definition dinv :: "'v graph \<Rightarrow> key \<Rightarrow> dijkstra_state \<Rightarrow> bool" where
  "dinv g start s =
     (heap_sync s
      \<and> dist_ok s
      \<and> dom (distances s) = set (Map_keys (nodes g))
      \<and> (\<exists>d0. distances s start = Some d0 \<and> d0 \<le> 0)
      \<and> (\<forall>u. u \<notin> queued s \<longrightarrow> relaxed_from g s u)
      \<and> (\<forall>u du x. distances s u = Some du \<longrightarrow> u \<notin> queued s \<longrightarrow> x \<in> set (heap s) \<longrightarrow>
            du \<le> distance x))"

lemma get_edge_all_edges: "get_edge g u v = Some e \<Longrightarrow> (u, v, e) \<in> set (all_edges g)"
  by (auto simp: get_edge_def all_edges_def Map_get_def split: option.splits
      dest!: map_of_SomeD intro!: bexI [of _ "(u, _)"])

lemma neighbors_all_edges:
  "Map_get (edges g) c = Some m \<Longrightarrow> (t, e) \<in> set m \<Longrightarrow> (c, t, e) \<in> set (all_edges g)"
  by (auto simp: all_edges_def Map_get_def dest!: map_of_SomeD intro!: bexI [of _ "(c, m)"])

lemma Map_has_keys: "Map_has m k \<longleftrightarrow> k \<in> set (Map_keys m)"
  by (simp add: Map_has_def Map_keys_def map_of_eq_None_iff)

lemma dinv_step:
  assumes inv: "dinv g start s"
    and nn: "nonneg_weights g" and cons: "adjacency_consistent g"
    and ex: "extractMin (heap s) = Inr (c, h')"
    and nb: "neighbors = (case Map_get (edges g) c of None \<Rightarrow> [] | Some m \<Rightarrow> m)"
  shows "dinv g start (fold (relax c) neighbors (s\<lparr>heap := h'\<rparr>))"
proof -
  define x0 where "x0 = heap s ! 0"
  define dc where "dc = distance x0"
  define s1 where "s1 = s\<lparr>heap := h'\<rparr>"
  from extractMin_Inr [OF ex]
  have ne: "heap s \<noteq> []" and c: "c = node x0" and ms: "mset h' = mset (remove1 x0 (heap s))"
    by (simp_all add: x0_def)
  have x0: "x0 \<in> set (heap s)"
    using ne by (simp add: x0_def)
  have sync: "heap_ok (heap s)" "distinct (map node (heap s))"
    "\<And>x. x \<in> set (heap s) \<Longrightarrow> distances s (node x) = Some (distance x)"
    using inv by (simp_all add: dinv_def heap_sync_def)
  have set': "set h' = set (heap s) - {x0}"
    using mset_eq_nodes(1) [OF ms] distinct_nodes_remove1(2) [OF sync(2) x0] by simp
  have dist': "distinct (map node h')"
    using mset_eq_nodes(2) [OF ms] distinct_nodes_remove1(1) [OF sync(2) x0] by simp
  have cn: "c \<notin> node ` set h'"
    using distinct_nodes_remove1(3) [OF sync(2) x0] distinct_nodes_remove1(2) [OF sync(2) x0]
    by (simp add: set' c)
  have q1: "queued s1 = queued s - {c}"
  proof -
    have "node ` (set (heap s) - {x0}) = node ` set (heap s) - {node x0}"
      using cn x0 unfolding set' c by blast
    then show ?thesis by (simp add: queued_def s1_def set' c)
  qed
  have Dc: "distances s c = Some dc"
    using sync(3) [OF x0] by (simp add: c dc_def)
  have root: "dc \<le> distance x" if xs: "x \<in> set (heap s)" for x
  proof -
    obtain i where "i < length (heap s)" "heap s ! i = x"
      using xs by (auto simp: in_set_conv_nth)
    then show ?thesis
      using heap_ok_root_le [OF sync(1), of i] by (simp add: dc_def x0_def)
  qed
  have r1: "rinv g start c dc s1"
    unfolding rinv_def
  proof (intro conjI allI impI ballI)
    show "heap_sync s1"
      unfolding heap_sync_def s1_def
      using heap_ok_extractMin [OF sync(1) ex] dist' sync(3) by (simp add: set')
    show "dom (distances s1) = set (Map_keys (nodes g))"
      using inv by (simp add: dinv_def s1_def)
    show "\<exists>d0. distances s1 start = Some d0 \<and> d0 \<le> 0"
      using inv by (simp add: dinv_def s1_def)
    show "distances s1 c = Some dc"
      using Dc by (simp add: s1_def)
    show "c \<notin> queued s1"
      by (simp add: q1)
    show "dist_ok s1"
      using inv by (simp add: dinv_def dist_ok_def s1_def)
  next
    fix u assume "u \<notin> queued s1" "u \<noteq> c"
    then have "relaxed_from g s u" using inv by (simp add: dinv_def q1)
    then show "relaxed_from g s1 u" by (simp add: relaxed_from_def s1_def)
  next
    fix u du assume u: "distances s1 u = Some du" "u \<notin> queued s1"
    show "du \<le> dc"
    proof (cases "u = c")
      case True
      then show ?thesis using u(1) Dc by (simp add: s1_def)
    next
      case False
      then have "u \<notin> queued s" using u(2) by (simp add: q1)
      then show ?thesis using inv u(1) x0 by (auto simp: dinv_def s1_def dc_def)
    qed
  next
    fix x assume "x \<in> set (heap s1)"
    then show "dc \<le> distance x" using root by (simp add: s1_def set')
  qed
  have wts: "\<forall>(t, e) \<in> set neighbors. 0 \<le> weight e"
  proof (cases "Map_get (edges g) c")
    case None
    then show ?thesis by (simp add: nb)
  next
    case (Some m)
    then show ?thesis
      using nn neighbors_all_edges [OF Some] by (fastforce simp: nb nonneg_weights_def)
  qed
  define s2 where "s2 = fold (relax c) neighbors s1"
  from rinv_fold_relax [OF r1 wts]
  have r2: "rinv g start c dc s2"
    and processed: "\<forall>(t, e) \<in> set neighbors. t \<in> dom (distances s1) \<longrightarrow>
        (\<exists>alt dt. js_add dc (weight e) = Some alt \<and> distances s2 t = Some dt \<and> dt \<le> alt)"
    unfolding s2_def by blast+
  have dom1: "dom (distances s1) = set (Map_keys (nodes g))"
    using r1 by (simp add: rinv_def)
  have "dinv g start s2"
    unfolding dinv_def
  proof (intro conjI allI impI)
    show "heap_sync s2" "dist_ok s2" "dom (distances s2) = set (Map_keys (nodes g))"
      "\<exists>d0. distances s2 start = Some d0 \<and> d0 \<le> 0"
      using r2 by (simp_all add: rinv_def)
  next
    fix u assume u: "u \<notin> queued s2"
    show "relaxed_from g s2 u"
    proof (cases "u = c")
      case False
      then show ?thesis using r2 u by (simp add: rinv_def)
    next
      case True
      show ?thesis
        unfolding relaxed_from_def True
      proof (intro allI impI)
        fix v e du assume a: "distances s2 c = Some du" "get_edge g c v = Some e"
        then obtain m where m: "Map_get (edges g) c = Some m" "Map_get m v = Some e"
          by (auto simp: get_edge_def split: option.splits)
        then have mem: "(v, e) \<in> set neighbors"
          by (auto simp: nb Map_get_def dest: map_of_SomeD)
        have "(c, v, e) \<in> set (all_edges g)"
          using a(2) by (rule get_edge_all_edges)
        then have "Map_has (nodes g) v"
          using cons by (auto simp: adjacency_consistent_def)
        then have "v \<in> dom (distances s1)"
          by (simp add: dom1 Map_has_keys)
        then obtain r dv where "js_add dc (weight e) = Some r"
          "distances s2 v = Some dv" "dv \<le> r"
          using processed mem by blast
        moreover have "du = dc" using r2 a(1) by (simp add: rinv_def)
        ultimately show "\<exists>r dv. js_add du (weight e) = Some r \<and> distances s2 v = Some dv \<and> dv \<le> r"
          by blast
      qed
    qed
  next
    fix u du x assume "distances s2 u = Some du" "u \<notin> queued s2" "x \<in> set (heap s2)"
    then have "du \<le> dc" "dc \<le> distance x"
      using r2 by (auto simp: rinv_def)
    then show "du \<le> distance x" by (rule order_trans)
  qed
  then show ?thesis by (simp add: s2_def s1_def)
qed

lemma path_bound:
  assumes inv: "dinv g start s"
    and nn: "nonneg_weights g" and cons: "adjacency_consistent g"
    and m: "distances s end = Some m" "\<forall>x \<in> set (heap s). m \<le> distance x"
      "end \<in> queued s"
  shows "path_weight_from g acc (u # vs) = Some w \<Longrightarrow> last (u # vs) = end \<Longrightarrow>
    distances s u = Some du \<Longrightarrow> min du m \<le> acc \<Longrightarrow> 0 \<le> acc \<Longrightarrow> is_double acc \<Longrightarrow>
    m \<le> w"
proof (induction vs arbitrary: u du acc)
  case Nil
  then show ?case using m(1) by simp
next
  case (Cons v vs)
  from Cons.prems(1) obtain e acc' where e: "get_edge g u v = Some e"
    and acc': "js_add acc (weight e) = Some acc'"
    and w': "path_weight_from g acc' (v # vs) = Some w"
    by (auto split: option.splits)
  have mem: "(u, v, e) \<in> set (all_edges g)"
    using e by (rule get_edge_all_edges)
  have we: "0 \<le> weight e"
    using nn mem by (auto simp: nonneg_weights_def)
  have up: "acc \<le> acc'"
    using Cons.prems(6,5) we acc' by (rule js_add_increasing)
  have acc'0: "0 \<le> acc'"
    using Cons.prems(5) up by (rule order_trans)
  have acc'd: "is_double acc'"
    using acc' by (rule js_add_is_double)
  have "Map_has (nodes g) v"
    using cons mem by (auto simp: adjacency_consistent_def)
  then have "v \<in> dom (distances s)"
    using inv by (simp add: dinv_def Map_has_keys)
  then obtain dv where dv: "distances s v = Some dv"
    by blast
  have "min dv m \<le> acc'"
  proof (cases "u \<in> queued s")
    case True
    then obtain x where "x \<in> set (heap s)" "node x = u"
      by (auto simp: queued_def)
    then have "m \<le> du"
      using inv m(2) Cons.prems(3) by (auto simp: dinv_def heap_sync_def)
    then have "m \<le> acc" using Cons.prems(4) by (simp add: min_def split: if_splits)
    then have "m \<le> acc'" using up by (rule order_trans)
    then show ?thesis by (simp add: min_le_iff_disj)
  next
    case False
    obtain xe where xe: "xe \<in> set (heap s)" "node xe = end"
      using m(3) by (auto simp: queued_def)
    then have "distance xe = m"
      using inv m(1) by (auto simp: dinv_def heap_sync_def)
    then have "du \<le> m"
      using inv False Cons.prems(3) xe(1) by (auto simp: dinv_def)
    then have du_acc: "du \<le> acc" using Cons.prems(4) by (simp add: min_def)
    have du0: "0 \<le> du"
      using inv Cons.prems(3) by (auto simp: dinv_def dist_ok_def)
    have "relaxed_from g s u" using inv False by (simp add: dinv_def)
    then obtain r dv' where r: "js_add du (weight e) = Some r"
      "distances s v = Some dv'" "dv' \<le> r"
      unfolding relaxed_from_def using Cons.prems(3) e by blast
    have "r \<le> acc'"
      using du0 du_acc we r(1) acc' by (rule js_add_mono)
    then have "dv \<le> acc'" using r(2,3) dv by simp
    then show ?thesis by (simp add: min_le_iff_disj)
  qed
  from Cons.IH [OF w' _ dv this acc'0 acc'd] Cons.prems(2)
  show ?case by simp
qed

definition neighbors_of :: "'v graph \<Rightarrow> key \<Rightarrow> (key \<times> edge) list" where
  "neighbors_of g c = (case Map_get (edges g) c of None \<Rightarrow> [] | Some m \<Rightarrow> m)"

lemma dijkstra_loop_found:
  "extractMin (heap s) = Inr (end, h') \<Longrightarrow>
   dijkstra_loop g end s =
     map_option (\<lambda>path. Inr (path, distances s end)) (build_path (previous s) (Some end) [])"
  by (subst dijkstra_loop.simps) (auto simp: isEmpty_def extractMin_def)

lemma dijkstra_loop_next:
  "extractMin (heap s) = Inr (c, h') \<Longrightarrow> c \<noteq> end \<Longrightarrow>
   dijkstra_loop g end s = dijkstra_loop g end (fold (relax c) (neighbors_of g c) (s\<lparr>heap := h'\<rparr>))"
  by (subst dijkstra_loop.simps)
     (auto simp: isEmpty_def extractMin_def neighbors_of_def split: option.splits)

lemma dijkstra_loop_empty: "heap s = [] \<Longrightarrow> dijkstra_loop g end s = Some (Inl NoPathFound)"
  by (subst dijkstra_loop.simps) (simp add: isEmpty_def)

lemma extractMin_nonempty: "h \<noteq> [] \<Longrightarrow> \<exists>c h'. extractMin h = Inr (c, h')"
  by (cases h) (simp_all add: extractMin_def Let_def)

lemma dijkstra_loop_optimal:
  assumes nn: "nonneg_weights g" and cons: "adjacency_consistent g"
    and path: "path_weight_from g 0 (start # vs) = Some w" "last (start # vs) = end"
  shows "dinv g start s \<Longrightarrow> dijkstra_loop g end s = Some (Inr (p, Some d)) \<Longrightarrow> d \<le> w"
proof (induction "length (heap s)" arbitrary: s rule: less_induct)
  case less
  have ne: "heap s \<noteq> []"
    using less.prems(2) dijkstra_loop_empty [of s g "end"] by auto
  then obtain c h' where ex: "extractMin (heap s) = Inr (c, h')"
    using extractMin_nonempty by blast
  show ?case
  proof (cases "c = end")
    case True
    have d: "distances s end = Some d"
      using less.prems(2) ex by (auto simp: True dijkstra_loop_found)
    from extractMin_Inr [OF ex] have c: "end = node (heap s ! 0)"
      by (simp add: True)
    have x0: "heap s ! 0 \<in> set (heap s)" using ne by simp
    have sync: "heap_ok (heap s)"
      "\<And>x. x \<in> set (heap s) \<Longrightarrow> distances s (node x) = Some (distance x)"
      using less.prems(1) by (simp_all add: dinv_def heap_sync_def)
    have dx: "distance (heap s ! 0) = d"
      using sync(2) [OF x0] d c by simp
    have least: "\<forall>x \<in> set (heap s). d \<le> distance x"
    proof
      fix x assume "x \<in> set (heap s)"
      then obtain i where "i < length (heap s)" "heap s ! i = x"
        by (auto simp: in_set_conv_nth)
      then show "d \<le> distance x"
        using heap_ok_root_le [OF sync(1), of i] dx by simp
    qed
    have q: "end \<in> queued s"
      using x0 c by (auto simp: queued_def)
    obtain d0 where d0: "distances s start = Some d0" "d0 \<le> 0"
      using less.prems(1) by (auto simp: dinv_def)
    have "min d0 d \<le> 0" using d0(2) by (simp add: min_le_iff_disj)
    from path_bound [OF less.prems(1) nn cons d least q path d0(1) this _ is_double_0]
    show ?thesis by simp
  next
    case False
    define s2 where "s2 = fold (relax c) (neighbors_of g c) (s\<lparr>heap := h'\<rparr>)"
    have inv2: "dinv g start s2"
      unfolding s2_def
      using less.prems(1) nn cons ex by (rule dinv_step) (simp add: neighbors_of_def)
    have len: "length (heap s2) < length (heap s)"
      using extractMin_length [OF ex] by (simp add: s2_def)
    have "dijkstra_loop g end s2 = Some (Inr (p, Some d))"
      using less.prems(2) dijkstra_loop_next [OF ex False, of g] by (simp add: s2_def)
    from less.hyps [OF len inv2 this] show ?thesis .
  qed
qed

section \<open>The initialisation\<close>

definition iinv :: "key \<Rightarrow> dijkstra_state \<Rightarrow> bool" where
  "iinv start s =
     (heap_sync s \<and> dist_ok s \<and> queued s = dom (distances s)
      \<and> (\<forall>d. distances s start = Some d \<longrightarrow> d = 0))"

lemma init_node_fields:
  "distances (init_node start n s) = (distances s)(n \<mapsto> (if n = start then 0 else Inf))"
  "heap (init_node start n s) = insert_heap (heap s) (if n = start then 0 else Inf) n"
  by (simp_all add: init_node_def Let_def)

lemma iinv_init_node:
  assumes inv: "iinv start s" and n: "n \<notin> dom (distances s)"
  shows "iinv start (init_node start n s)"
proof -
  define d where "d = (if n = start then 0 else Inf :: num)"
  define s' where "s' = init_node start n s"
  let ?e = "\<lparr>distance = d, node = n\<rparr>"
  have D': "distances s' = (distances s)(n \<mapsto> d)"
    and H': "heap s' = insert_heap (heap s) d n"
    by (simp_all add: s'_def d_def init_node_fields)
  have sync: "heap_ok (heap s)" "distinct (map node (heap s))"
    "\<And>x. x \<in> set (heap s) \<Longrightarrow> distances s (node x) = Some (distance x)"
    and q: "queued s = dom (distances s)"
    using inv by (simp_all add: iinv_def heap_sync_def)
  have ms: "mset (heap s') = mset (?e # heap s)"
    by (simp add: H' mset_insert_heap)
  have set': "set (heap s') = insert ?e (set (heap s))"
    using mset_eq_nodes(1) [OF ms] by simp
  have nq: "n \<notin> node ` set (heap s)"
    using n q by (simp add: queued_def)
  have "heap_sync s'"
    unfolding heap_sync_def
  proof (intro conjI ballI)
    show "heap_ok (heap s')"
      using sync(1) by (simp add: H' heap_ok_insert)
    show "distinct (map node (heap s'))"
      using mset_eq_nodes(2) [OF ms] sync(2) nq by simp
    fix x assume "x \<in> set (heap s')"
    then consider "x = ?e" | "x \<in> set (heap s)"
      unfolding set' by blast
    then show "distances s' (node x) = Some (distance x)"
    proof cases
      case 1
      then show ?thesis by (simp add: D')
    next
      case 2
      then have "node x \<noteq> n" using nq by auto
      then show ?thesis using sync(3) [OF 2] by (simp add: D')
    qed
  qed
  moreover have "dist_ok s'"
    using inv by (auto simp: iinv_def dist_ok_def D' d_def zero_num_def)
  moreover have "queued s' = dom (distances s')"
    using q by (simp add: queued_def set' D')
  moreover have "\<forall>d'. distances s' start = Some d' \<longrightarrow> d' = 0"
    using inv by (auto simp: D' d_def iinv_def)
  ultimately show ?thesis
    by (simp add: iinv_def s'_def)
qed

lemma iinv_fold_init:
  "iinv start s \<Longrightarrow> distinct ks \<Longrightarrow> set ks \<inter> dom (distances s) = {} \<Longrightarrow>
   iinv start (fold (init_node start) ks s)
   \<and> dom (distances (fold (init_node start) ks s)) = dom (distances s) \<union> set ks"
proof (induction ks arbitrary: s)
  case Nil
  then show ?case by simp
next
  case (Cons k ks)
  have k: "k \<notin> dom (distances s)" using Cons.prems(3) by auto
  have inv1: "iinv start (init_node start k s)"
    using Cons.prems(1) k by (rule iinv_init_node)
  have dom1: "dom (distances (init_node start k s)) = insert k (dom (distances s))"
    by (simp add: init_node_fields)
  have "set ks \<inter> dom (distances (init_node start k s)) = {}"
    using Cons.prems(2,3) by (auto simp: dom1)
  from Cons.IH [OF inv1 _ this] Cons.prems(2) show ?case
    by (auto simp: dom1)
qed

lemma dinv_init:
  assumes "distinct (Map_keys (nodes g))" and "Map_has (nodes g) start"
  shows "dinv g start (fold (init_node start) (Map_keys (nodes g))
           \<lparr>distances = Map.empty, previous = Map.empty, heap = []\<rparr>)"
proof -
  define s0 :: dijkstra_state where
    "s0 = \<lparr>distances = Map.empty, previous = Map.empty, heap = []\<rparr>"
  define s where "s = fold (init_node start) (Map_keys (nodes g)) s0"
  have "iinv start s0"
    by (simp add: iinv_def heap_sync_def dist_ok_def s0_def heap_ok_Nil queued_def)
  from iinv_fold_init [OF this assms(1)]
  have inv: "iinv start s" and dom: "dom (distances s) = set (Map_keys (nodes g))"
    by (simp_all add: s_def s0_def)
  have "start \<in> dom (distances s)"
    using assms(2) by (simp add: dom Map_has_keys)
  then have st: "distances s start = Some 0"
    using inv by (auto simp: iinv_def)
  have q: "queued s = dom (distances s)"
    using inv by (simp add: iinv_def)
  have "dinv g start s"
    unfolding dinv_def
  proof (intro conjI allI impI)
    show "heap_sync s" using inv by (simp add: iinv_def)
    show "dist_ok s" using inv by (simp add: iinv_def)
    show "dom (distances s) = set (Map_keys (nodes g))" by (rule dom)
    show "\<exists>d0. distances s start = Some d0 \<and> d0 \<le> 0" using st by simp
  next
    fix u assume "u \<notin> queued s"
    then show "relaxed_from g s u" by (auto simp: q relaxed_from_def)
  next
    fix u du x assume "distances s u = Some du" "u \<notin> queued s" "x \<in> set (heap s)"
    then show "du \<le> distance x" by (auto simp: q)
  qed
  then show ?thesis by (simp add: s_def s0_def)
qed

section \<open>The result of the search\<close>

text \<open>
  C4, as the claim states it, fails: the program adds doubles, and the distance it returns
  is a rounded sum.  On the path from A over B to C with the weights \<open>2 ^ 53\<close> and 3 it
  returns 9007199254740996, which is more than the sum 9007199254740995 of the two weights.
\<close>

theorem findShortestPath_exceeds_exact_sum:
  "distinct (Map_keys (nodes big_weights))
   \<and> nonneg_weights big_weights \<and> adjacency_consistent big_weights
   \<and> findShortestPath big_weights ''A'' ''C''
       = Some (Inr ([''A'', ''B'', ''C''], Some (Fin 9007199254740996)))
   \<and> exact_path_weight big_weights [''A'', ''B'', ''C''] = Some 9007199254740995
   \<and> \<not> Fin 9007199254740996 \<le> Fin 9007199254740995"
  by code_simp

text \<open>
  C4, amended.  For every graph with non-negative edge weights and a consistent adjacency
  index (the node registry being a \<open>Map\<close>, it holds each key once), when
  \<open>findShortestPath(start, end)\<close> returns a distance \<open>d\<close>, then \<open>d\<close> is less than or equal to
  the weight of every path from \<open>start\<close> to \<open>end\<close> in the graph, the weight being the sum of
  the path's weights as the program itself adds them: in double arithmetic, edge after
  edge from \<open>start\<close> on.
\<close>

theorem findShortestPath_optimal:
  assumes "distinct (Map_keys (nodes g))"
    and "nonneg_weights g" and "adjacency_consistent g"
    and res: "findShortestPath g start end = Some (Inr (p, Some d))"
    and path: "path_weight g q = Some w" "hd q = start" "last q = end"
  shows "d \<le> w"
proof -
  obtain vs where q: "q = start # vs"
    using path(1,2) by (cases q) (auto simp: path_weight_def)
  have present: "Map_has (nodes g) start"
    using res by (auto simp: findShortestPath_def new_BinaryHeap_def split: if_splits)
  define s where "s = fold (init_node start) (Map_keys (nodes g))
      \<lparr>distances = Map.empty, previous = Map.empty, heap = []\<rparr>"
  have loop: "dijkstra_loop g end s = Some (Inr (p, Some d))"
    using res by (auto simp: findShortestPath_def new_BinaryHeap_def s_def split: if_splits)
  have "dinv g start s"
    unfolding s_def using assms(1) present by (rule dinv_init)
  from dijkstra_loop_optimal [OF assms(2,3) _ _ this loop, of vs w] path q
  show ?thesis by (simp add: path_weight_def)
qed

theorem findShortestPath_optimal_witness:
  "distinct (Map_keys (nodes big_weights))
   \<and> nonneg_weights big_weights \<and> adjacency_consistent big_weights
   \<and> findShortestPath big_weights ''A'' ''C''
       = Some (Inr ([''A'', ''B'', ''C''], Some (Fin 9007199254740996)))
   \<and> path_weight big_weights [''A'', ''B'', ''C''] = Some (Fin 9007199254740996)
   \<and> Fin 9007199254740996 \<le> Fin 9007199254740996
   \<and> findShortestPath (graph_of sample_graph) ''A'' ''D''
       = Some (Inr ([''A'', ''D''], Some (Fin 15)))
   \<and> path_weight (graph_of sample_graph) [''A'', ''B'', ''C'', ''D''] = Some (Fin 25)
   \<and> Fin 15 \<le> Fin 25"
proof -
  have 1: "distinct (Map_keys (nodes big_weights))"
    by code_simp
  have 2: "nonneg_weights big_weights"
    by code_simp
  have 3: "adjacency_consistent big_weights"
    by code_simp
  have 4: "findShortestPath big_weights ''A'' ''C''
      = Some (Inr ([''A'', ''B'', ''C''], Some (Fin 9007199254740996)))"
    by code_simp
  have 5: "path_weight big_weights [''A'', ''B'', ''C''] = Some (Fin 9007199254740996)"
    by code_simp
  have a: "Fin 9007199254740996 \<le> Fin 9007199254740996"
    using findShortestPath_optimal [OF 1 2 3 4 5] by simp
  have 6: "distinct (Map_keys (nodes (graph_of sample_graph)))"
    by code_simp
  have 7: "nonneg_weights (graph_of sample_graph)"
    by code_simp
  have 8: "adjacency_consistent (graph_of sample_graph)"
    by code_simp
  have 9: "findShortestPath (graph_of sample_graph) ''A'' ''D''
      = Some (Inr ([''A'', ''D''], Some (Fin 15)))"
    by code_simp
  have 10: "path_weight (graph_of sample_graph) [''A'', ''B'', ''C'', ''D''] = Some (Fin 25)"
    by code_simp
  have b: "Fin 15 \<le> Fin 25"
    using findShortestPath_optimal [OF 6 7 8 9 10] by simp
  from 1 2 3 4 5 a 9 10 b show ?thesis by blast
qed

text \<open>
  C3.  In the sample graph, after \<open>removeNode("B")\<close>, \<open>findShortestPath("A", "D")\<close> returns
  the path A, D with distance 15, as the claim says, but \<open>getAllConnectedNodes("A")\<close> returns
  A, D and B: the walk follows the edge from A to B that \<open>removeNode\<close> left in the adjacency
  index (see C1).
\<close>

theorem sample_after_removeNode:
  "(case sample_graph_removed of
      Inl e \<Rightarrow> False
    | Inr g \<Rightarrow>
        findShortestPath g ''A'' ''D'' = Some (Inr ([''A'', ''D''], Some (Fin 15)))
        \<and> getAllConnectedNodes g ''A'' = Some (Inr [''A'', ''D'', ''B'']))"
  by code_simp

theorem sample_after_removeNode_witness:
  "\<exists>g. sample_graph_removed = Inr g
      \<and> findShortestPath g ''A'' ''D'' = Some (Inr ([''A'', ''D''], Some (Fin 15)))
      \<and> getAllConnectedNodes g ''A'' = Some (Inr [''A'', ''D'', ''B''])"
  using sample_after_removeNode by (fastforce split: sum.splits)

subsection \<open>An end node that cannot be reached\<close>

text \<open>
  The node \<open>end\<close> is in the heap from the initialisation on and leaves it only when it is
  extracted, which ends the search with a result.  So the loop never runs out of elements,
  and the \<open>throw\<close> after it is never reached: whatever the graph and the two keys are,
  the outcome is not the error \<open>No path found\<close>.
\<close>

lemma nodes_updateDistance: "mset (map node (updateDistance h n d)) = mset (map node h)"
proof (cases "findIndex (\<lambda>e. node e = n) h")
  case None
  then show ?thesis by (simp add: updateDistance_def)
next
  case (Some i)
  then have i: "i < length h" using findIndex_Some by fastforce
  have "map node (h[i := (h ! i)\<lparr>distance := d\<rparr>]) = map node h"
    using i by (simp add: map_update list_update_same_conv)
  then have "mset (map node (bubbleUp (h[i := (h ! i)\<lparr>distance := d\<rparr>]) i)) = mset (map node h)"
    using i mset_bubbleUp [of i "h[i := (h ! i)\<lparr>distance := d\<rparr>]"]
    by (metis length_list_update mset_map)
  then show ?thesis using Some by (simp add: updateDistance_def)
qed

lemma queued_updateDistance: "node ` set (updateDistance h n d) = node ` set h"
  using nodes_updateDistance [of h n d, THEN mset_eq_setD] by simp

lemma queued_relax: "queued (relax c te s) = queued s"
  by (simp add: relax_def Let_def queued_def queued_updateDistance split: option.splits)

lemma queued_fold_relax: "queued (fold (relax c) es s) = queued s"
  by (induction es arbitrary: s) (simp_all add: queued_relax)

lemma queued_extractMin:
  assumes "extractMin h = Inr (c, h')" and "k \<in> node ` set h" and "k \<noteq> c"
  shows "k \<in> node ` set h'"
proof -
  from extractMin_Inr [OF assms(1)]
  have c: "c = node (h ! 0)" and ms: "mset h' = mset (remove1 (h ! 0) h)"
    by simp_all
  obtain x where x: "x \<in> set h" "node x = k"
    using assms(2) by auto
  then have "x \<noteq> h ! 0" using assms(3) c by auto
  then have "x \<in> set (remove1 (h ! 0) h)" using x(1) by simp
  then have "x \<in> set h'" using mset_eq_setD [OF ms] by simp
  then show ?thesis using x(2) by auto
qed

lemma dijkstra_loop_no_error:
  "end \<in> queued s \<Longrightarrow> dijkstra_loop g end s \<noteq> Some (Inl e)"
proof (induction "length (heap s)" arbitrary: s rule: less_induct)
  case less
  have ne: "heap s \<noteq> []"
    using less.prems by (auto simp: queued_def)
  then obtain c h' where ex: "extractMin (heap s) = Inr (c, h')"
    using extractMin_nonempty by blast
  show ?case
  proof (cases "c = end")
    case True
    then show ?thesis using ex by (auto simp: dijkstra_loop_found)
  next
    case False
    define s2 where "s2 = fold (relax c) (neighbors_of g c) (s\<lparr>heap := h'\<rparr>)"
    have "end \<in> node ` set h'"
      using ex less.prems False by (intro queued_extractMin [of "heap s" c h']) (auto simp: queued_def)
    then have q: "end \<in> queued s2"
      by (simp add: s2_def queued_fold_relax) (simp add: queued_def)
    have len: "length (heap s2) < length (heap s)"
      using extractMin_length [OF ex] by (simp add: s2_def)
    have "dijkstra_loop g end s = dijkstra_loop g end s2"
      using dijkstra_loop_next [OF ex False, of g] by (simp add: s2_def)
    then show ?thesis using less.hyps [OF len q] by simp
  qed
qed

lemma queued_init_node: "queued (init_node start n s) = insert n (queued s)"
proof -
  have "set (heap (init_node start n s))
      = insert \<lparr>distance = (if n = start then 0 else Inf), node = n\<rparr> (set (heap s))"
    using mset_insert_heap [of "heap s" "if n = start then 0 else Inf" n]
      mset_eq_setD [of "heap (init_node start n s)"
        "\<lparr>distance = (if n = start then 0 else Inf), node = n\<rparr> # heap s"]
    by (simp add: init_node_fields)
  then show ?thesis by (simp add: queued_def)
qed

lemma queued_fold_init: "queued (fold (init_node start) ks s) = queued s \<union> set ks"
  by (induction ks arbitrary: s) (auto simp: queued_init_node)

lemma findShortestPath_never_NoPathFound:
  "findShortestPath g start end \<noteq> Some (Inl NoPathFound)"
proof (cases "Map_has (nodes g) start \<and> Map_has (nodes g) end")
  case False
  then show ?thesis by (auto simp: findShortestPath_def new_BinaryHeap_def)
next
  case True
  then have "end \<in> queued (fold (init_node start) (Map_keys (nodes g))
      \<lparr>distances = Map.empty, previous = Map.empty, heap = []\<rparr>)"
    by (simp add: queued_fold_init Map_has_keys)
  from dijkstra_loop_no_error [OF this] True show ?thesis
    by (simp add: findShortestPath_def new_BinaryHeap_def)
qed

text \<open>
  C5.  A successful \<open>findShortestPath(start, end)\<close> returns a path that begins with \<open>start\<close>
  and whose weights add up to the distance.  On two nodes without an edge the call succeeds
  with the path that holds \<open>end\<close> alone and the distance \<open>Infinity\<close>: the path does not begin
  with \<open>start\<close>, and its (empty) sum of weights is not the distance.
\<close>

theorem unreachable_end_path_misses_start:
  "findShortestPath two_nodes ''A'' ''B'' = Some (Inr ([''B''], Some Inf))
   \<and> Map_has (nodes two_nodes) ''A'' \<and> Map_has (nodes two_nodes) ''B''"
  by code_simp

theorem unreachable_end_path_misses_start_witness:
  "\<exists>p d. findShortestPath two_nodes ''A'' ''B'' = Some (Inr (p, d))
      \<and> hd p \<noteq> ''A'' \<and> d = Some Inf"
  using unreachable_end_path_misses_start by simp

text \<open>
  C6.  When \<open>end\<close> is not reachable from \<open>start\<close>, \<open>findShortestPath\<close> fails with
  \<open>NoPathFound\<close>.  Every node is inserted into the heap, the unreached ones with the key
  \<open>Infinity\<close>, so \<open>end\<close> is extracted before the queue empties and the call returns instead
  of throwing: on two nodes without an edge the result is not the error.
\<close>

theorem unreachable_end_no_error:
  "findShortestPath two_nodes ''A'' ''B'' \<noteq> Some (Inl NoPathFound)
   \<and> get_edge two_nodes ''A'' ''B'' = None \<and> get_edge two_nodes ''B'' ''A'' = None"
  by code_simp

theorem unreachable_end_no_error_witness:
  "findShortestPath two_nodes ''A'' ''B'' \<noteq> Some (Inl NoPathFound)"
  using unreachable_end_no_error by simp

subsection \<open>The path from a node to itself\<close>

text \<open>
  The start node is at the root of the heap after the initialisation, so it is the first
  one extracted; when it is also the end node, the path is built at once.  For a truthy key
  the path holds the key alone and the distance is 0.
\<close>

lemma previous_init_node: "previous (init_node start n s) = (previous s)(n \<mapsto> None)"
  by (simp add: init_node_def Let_def)

lemma fold_init_values:
  "distances (fold (init_node start) ks s) k
     = (if k \<in> set ks then Some (if k = start then 0 else Inf) else distances s k)
   \<and> previous (fold (init_node start) ks s) k
     = (if k \<in> set ks then Some None else previous s k)"
  by (induction ks arbitrary: s) (auto simp: init_node_fields previous_init_node)

lemma build_path_single: "truthy s \<Longrightarrow> prev s = Some None \<Longrightarrow> build_path prev (Some s) [] = Some [s]"
  by (subst build_path.simps, simp, subst build_path.simps, simp)

lemma findShortestPath_same_node:
  assumes dist: "distinct (Map_keys (nodes g))" and has: "Map_has (nodes g) s"
    and tr: "truthy s"
  shows "findShortestPath g s s = Some (Inr ([s], Some 0))"
proof -
  define st where "st = fold (init_node s) (Map_keys (nodes g))
      \<lparr>distances = Map.empty, previous = Map.empty, heap = []\<rparr>"
  have inv: "dinv g s st"
    unfolding st_def using dist has by (rule dinv_init)
  have mem: "s \<in> set (Map_keys (nodes g))"
    using has by (simp add: Map_has_keys)
  have D: "distances st k = (if k \<in> set (Map_keys (nodes g))
      then Some (if k = s then 0 else Inf) else None)" for k
    using fold_init_values [of s "Map_keys (nodes g)" _ k] by (simp add: st_def)
  have P: "previous st s = Some None"
    using fold_init_values [of s "Map_keys (nodes g)" _ s] mem by (simp add: st_def)
  have sync: "heap_ok (heap st)"
    "\<And>x. x \<in> set (heap st) \<Longrightarrow> distances st (node x) = Some (distance x)"
    using inv by (simp_all add: dinv_def heap_sync_def)
  have "s \<in> queued st"
    using mem by (simp add: st_def queued_fold_init)
  then obtain xs where xs: "xs \<in> set (heap st)" "node xs = s"
    by (auto simp: queued_def)
  then have dxs: "distance xs = 0"
    using sync(2) [OF xs(1)] D [of s] mem by simp
  have ne: "heap st \<noteq> []" using xs by auto
  obtain i where i: "i < length (heap st)" "heap st ! i = xs"
    using xs(1) by (auto simp: in_set_conv_nth)
  have le: "distance (heap st ! 0) \<le> 0"
    using heap_ok_root_le [OF sync(1) i(1)] i(2) dxs by simp
  have root: "node (heap st ! 0) = s"
  proof (rule ccontr)
    assume n: "node (heap st ! 0) \<noteq> s"
    have "heap st ! 0 \<in> set (heap st)" using ne by simp
    from sync(2) [OF this] have "distance (heap st ! 0) = Inf"
      using D [of "node (heap st ! 0)"] n by (auto split: if_splits)
    then show False using le by (simp add: zero_num_def)
  qed
  obtain c h' where ex: "extractMin (heap st) = Inr (c, h')"
    using ne extractMin_nonempty by blast
  then have "c = s" using extractMin_Inr [OF ex] root by simp
  then have "dijkstra_loop g s st
      = map_option (\<lambda>path. Inr (path, distances st s)) (build_path (previous st) (Some s) [])"
    using ex by (simp add: dijkstra_loop_found)
  also have "\<dots> = Some (Inr ([s], Some 0))"
    using build_path_single [of s "previous st", OF tr P] D [of s] mem by simp
  finally show ?thesis
    using has by (simp add: findShortestPath_def new_BinaryHeap_def st_def)
qed

text \<open>
  C9.  \<open>findShortestPath(s, s)\<close> returns the path that holds \<open>s\<close> alone and the distance 0.
  The path is built by \<open>while (node)\<close>, which stops at once when the key itself is falsy:
  for the node whose key is the empty string the returned path is empty.
\<close>

theorem same_node_falsy_key_empty_path:
  "Map_has (nodes empty_key_node) []
   \<and> findShortestPath empty_key_node [] [] = Some (Inr ([], Some 0))"
  by code_simp

theorem same_node_falsy_key_empty_path_witness:
  "findShortestPath empty_key_node [] [] \<noteq> Some (Inr ([[]], Some 0))"
  using same_node_falsy_key_empty_path by simp

end
